theory Spec2Isabelle
  imports Main "HOL-Library.Word" "HOL-Library.AList"
begin

section \<open>Data model of package contexts\<close>

text \<open>
  Pointers are addresses into an explicit store, because the manager's registry, the
  caller's handle and a parent's child list all refer to the same context object.
  A \<open>ptr\<close> may be nil (\<open>None\<close>). Instants and durations are integers (nanoseconds);
  every reading of the clock is an argument of the operation that reads it.
\<close>

type_synonym addr = nat
type_synonym ptr = "addr option"
type_synonym paddr = nat
type_synonym MemoryContextType = string
type_synonym otype = string
type_synonym obj = "otype \<times> nat"

datatype error =
    ErrContextNotFound
  | ErrContextInUse
  | ErrInvalidContextType
  | ErrContextClosed
  | ErrContextManagerClosed
  | ErrMaxReferencesReached
  | ErrInvalidConfig
  | ErrReturnNil
  | ErrPool string
  | Wrapf string error
  | Errorf string error

text \<open>
  \<open>ErrReturnNil\<close> is \<^verbatim>\<open>errors.New("cannot return nil context")\<close>; \<open>Wrapf\<close> is
  \<^verbatim>\<open>fmt.Errorf\<close> with \<^verbatim>\<open>%w\<close>, \<open>Errorf\<close> with \<^verbatim>\<open>%v\<close>; \<open>ErrPool\<close> is an error of
  the pool package.
\<close>

text \<open>
  What a call does: it returns a value, it panics, or it blocks forever on a mutex that
  the calling goroutine already holds (\<^verbatim>\<open>sync.RWMutex\<close> is not reentrant).
\<close>

datatype 'a outcome = Returns 'a | Panics | Deadlocks

text \<open>
  Modelled from the spec: the pool of package \<^verbatim>\<open>memctx/pool\<close> is an external
  collaborator whose source is not part of the repository; the spec gives
  \<^verbatim>\<open>Pool.close() -> error\<close> (close and release all resources). A pool records whether it
  has been closed, the error (if any) that its \<^verbatim>\<open>Close\<close> reports, and its idle objects.
  \<^verbatim>\<open>Get\<close> and \<^verbatim>\<open>Put\<close> are parameters of \<open>Acquire\<close> and \<open>Release\<close>.
\<close>

record pool =
  pool_closed :: bool
  close_error :: "error option"
  idle :: "obj list"

definition pool_Close :: "pool \<Rightarrow> error option \<times> pool" where
  "pool_Close p =
     (case close_error p of
        Some e \<Rightarrow> (Some e, p)
      | None \<Rightarrow> (None, p\<lparr>pool_closed := True\<rparr>))"

record MemoryContext =
  active :: bool
  closed :: bool
  referenceCount :: "32 word"
  contextType :: MemoryContextType
  parent :: ptr
  children :: "ptr list"
  pools :: "(otype \<times> paddr) list option"
  createdAt :: int
  lastUsed :: int

text \<open>
  \<open>pools\<close> is a Go map: \<open>None\<close> is the nil map, and the order of the association
  list is the order in which one \<^verbatim>\<open>range\<close> happens to visit the entries.
  \<open>referenceCount\<close> is an \<^verbatim>\<open>int32\<close>, read with \<open>sint\<close>.
\<close>

record MemoryContextConfig =
  Parent :: ptr
  ContextType :: MemoryContextType

record heap =
  ctxs :: "addr \<Rightarrow> MemoryContext"
  pls :: "paddr \<Rightarrow> pool"
  nextCtx :: addr
  nextPool :: paddr

definition upd_ctx :: "heap \<Rightarrow> addr \<Rightarrow> (MemoryContext \<Rightarrow> MemoryContext) \<Rightarrow> heap" where
  "upd_ctx h a f = h\<lparr>ctxs := (ctxs h)(a := f (ctxs h a))\<rparr>"

definition upd_pool :: "heap \<Rightarrow> paddr \<Rightarrow> pool \<Rightarrow> heap" where
  "upd_pool h a p = h\<lparr>pls := (pls h)(a := p)\<rparr>"

definition pools_list :: "MemoryContext \<Rightarrow> (otype \<times> paddr) list" where
  "pools_list c = (case pools c of None \<Rightarrow> [] | Some ps \<Rightarrow> ps)"

section \<open>MemoryContext (memctx.go)\<close>

definition NewMemoryContext :: "heap \<Rightarrow> MemoryContextConfig \<Rightarrow> int \<Rightarrow> addr \<times> heap" where
  "NewMemoryContext h config now =
     (let mc = nextCtx h
      in (mc, h\<lparr>ctxs := (ctxs h)(mc :=
                  \<lparr>active = False, closed = False, referenceCount = 0,
                   contextType = ContextType config, parent = Parent config,
                   children = [], pools = Some [], createdAt = now, lastUsed = now\<rparr>),
                nextCtx := Suc mc\<rparr>))"

definition allocate :: "heap \<Rightarrow> addr \<Rightarrow> int \<Rightarrow> addr \<times> heap" where
  "allocate h mc now =
     NewMemoryContext h \<lparr>Parent = Some mc, ContextType = contextType (ctxs h mc)\<rparr> now"

text \<open>
  \<open>held\<close> lists the contexts whose mutex the calling goroutine holds; a public call
  starts with \<open>held = []\<close>.
\<close>

definition RegisterChild :: "addr list \<Rightarrow> heap \<Rightarrow> addr \<Rightarrow> ptr \<Rightarrow> heap outcome" where
  "RegisterChild held h mc child =
     (if mc \<in> set held then Deadlocks
      else Returns (upd_ctx h mc (\<lambda>c. c\<lparr>children := children c @ [child]\<rparr>)))"

definition CreateChild :: "heap \<Rightarrow> addr \<Rightarrow> int \<Rightarrow> (error option \<times> heap) outcome" where
  "CreateChild h mc now =
     (if closed (ctxs h mc) then Returns (Some ErrContextClosed, h)
      else (let (memCtx, h1) = allocate h mc now
            in case RegisterChild [mc] h1 mc (Some memCtx) of
                 Returns h2 \<Rightarrow> Returns (None, h2)
               | Panics \<Rightarrow> Panics
               | Deadlocks \<Rightarrow> Deadlocks))"

text \<open>
  \<open>newPool\<close> is the result of the external \<^verbatim>\<open>pool.NewPool\<close>: an error or the new pool.
\<close>

definition CreatePool ::
  "heap \<Rightarrow> addr \<Rightarrow> otype \<Rightarrow> error + pool \<Rightarrow> (error option \<times> heap) outcome" where
  "CreatePool h mc objectType newPool =
     (if closed (ctxs h mc) then Returns (Some ErrContextClosed, h)
      else (case newPool of
              Inl err \<Rightarrow> Returns (Some (Wrapf ''NewPool failed'' err), h)
            | Inr p \<Rightarrow>
               (case pools (ctxs h mc) of
                  None \<Rightarrow> Panics
                | Some ps \<Rightarrow>
                   (let poolObj = nextPool h;
                        h1 = h\<lparr>pls := (pls h)(poolObj := p), nextPool := Suc poolObj\<rparr>
                    in Returns (None,
                         upd_ctx h1 mc
                           (\<lambda>c. c\<lparr>pools := Some (AList.update objectType poolObj ps)\<rparr>))))))"

definition Acquire ::
  "(pool \<Rightarrow> obj option \<times> pool) \<Rightarrow> heap \<Rightarrow> addr \<Rightarrow> otype \<Rightarrow> obj option \<times> heap" where
  "Acquire pool_Get h mm objectType =
     (if closed (ctxs h mm) then (None, h)
      else (case map_of (pools_list (ctxs h mm)) objectType of
              None \<Rightarrow> (None, h)
            | Some poolObj \<Rightarrow>
               (let (ob, p) = pool_Get (pls h poolObj) in (ob, upd_pool h poolObj p))))"

definition Release ::
  "(pool \<Rightarrow> obj option \<Rightarrow> pool) \<Rightarrow> heap \<Rightarrow> addr \<Rightarrow> otype \<Rightarrow> obj option \<Rightarrow> bool \<times> heap" where
  "Release pool_Put h mm objectType ob =
     (if closed (ctxs h mm) then (False, h)
      else (case map_of (pools_list (ctxs h mm)) objectType of
              None \<Rightarrow> (False, h)
            | Some poolObj \<Rightarrow>
               (if map_option fst ob \<noteq> Some objectType then (False, h)
                else (True, upd_pool h poolObj (pool_Put (pls h poolObj) ob)))))"

definition GetPool :: "heap \<Rightarrow> addr \<Rightarrow> otype \<Rightarrow> paddr option" where
  "GetPool h mm objectType = map_of (pools_list (ctxs h mm)) objectType"

text \<open>The first loop of \<^verbatim>\<open>Close\<close>: close the pools in turn, stop at the first error.\<close>

fun close_pools :: "heap \<Rightarrow> (otype \<times> paddr) list \<Rightarrow> error option \<times> heap" where
  "close_pools h [] = (None, h)"
| "close_pools h ((t, pa) # ps) =
     (case pool_Close (pls h pa) of
        (Some err, p) \<Rightarrow> (Some (Wrapf ''failed to close pool'' err), upd_pool h pa p)
      | (None, p) \<Rightarrow> close_pools (upd_pool h pa p) ps)"

text \<open>
  The second loop, over the children, with the recursive call as the argument \<open>cl\<close>.
\<close>

fun close_children ::
  "(heap \<Rightarrow> ptr \<Rightarrow> (error option \<times> heap) outcome option) \<Rightarrow> heap \<Rightarrow> ptr list
     \<Rightarrow> (error option \<times> heap) outcome option" where
  "close_children cl h [] = Some (Returns (None, h))"
| "close_children cl h (child # cs) =
     (case cl h child of
        None \<Rightarrow> None
      | Some Panics \<Rightarrow> Some Panics
      | Some Deadlocks \<Rightarrow> Some Deadlocks
      | Some (Returns (Some err, h1)) \<Rightarrow>
          Some (Returns (Some (Wrapf ''failed to close child context'' err), h1))
      | Some (Returns (None, h1)) \<Rightarrow> close_children cl h1 cs)"

definition cleared :: "MemoryContext \<Rightarrow> MemoryContext" where
  "cleared c = c\<lparr>pools := None, children := [], closed := True, active := False,
                referenceCount := 0\<rparr>"

text \<open>
  \<^verbatim>\<open>Close\<close> recurses through the children, so it takes fuel: \<open>None\<close> means that the
  fuel did not suffice. A nil receiver panics at \<^verbatim>\<open>mc.mu.Lock()\<close>; a receiver whose mutex
  is already held blocks there.
\<close>

primrec Close ::
  "nat \<Rightarrow> addr list \<Rightarrow> heap \<Rightarrow> ptr \<Rightarrow> (error option \<times> heap) outcome option" where
  "Close 0 = (\<lambda>held h mcp. None)"
| "Close (Suc n) = (\<lambda>held h mcp.
     (case mcp of
        None \<Rightarrow> Some Panics
      | Some mc \<Rightarrow>
         (if mc \<in> set held then Some Deadlocks
          else if closed (ctxs h mc) then Some (Returns (None, h))
          else (case close_pools h (pools_list (ctxs h mc)) of
                  (Some err, h1) \<Rightarrow> Some (Returns (Some err, h1))
                | (None, h1) \<Rightarrow>
                   (case close_children (Close n (mc # held)) h1 (children (ctxs h1 mc)) of
                      None \<Rightarrow> None
                    | Some Panics \<Rightarrow> Some Panics
                    | Some Deadlocks \<Rightarrow> Some Deadlocks
                    | Some (Returns (Some err, h2)) \<Rightarrow> Some (Returns (Some err, h2))
                    | Some (Returns (None, h2)) \<Rightarrow>
                        Some (Returns (None, upd_ctx h2 mc cleared)))))))"

section \<open>ContextManager\<close>

text \<open>
  Every operation is modelled as it runs on its own, from the store and the manager it
  finds to those it leaves. The goroutine started by \<^verbatim>\<open>NewContextManager\<close> is not part
  of the model: one tick of it is \<open>cleanupIdleContexts\<close>. What \<^verbatim>\<open>fmt.Printf\<close> writes
  is left out. \<^verbatim>\<open>time.Duration\<close> values are integers.
\<close>

record ContextConfig =
  MaxReferences :: "32 word"
  MaxIdleTime :: int
  CleanupInterval :: int

datatype chan = ChanOpen | ChanClosed

record ContextManager =
  ctxCache :: "(MemoryContextType \<times> addr) list option"
  config :: "ContextConfig option"
  stopChan :: "chan option"
  cm_closed :: bool

text \<open>
  \<open>ctxCache\<close> is a Go map (\<open>None\<close> is nil: reads find nothing, a write panics, a delete
  does nothing); \<open>config\<close> and \<open>stopChan\<close> are nil when \<open>None\<close>.
\<close>

definition cache_list :: "ContextManager \<Rightarrow> (MemoryContextType \<times> addr) list" where
  "cache_list cm = (case ctxCache cm of None \<Rightarrow> [] | Some m \<Rightarrow> m)"

definition cache_lookup :: "ContextManager \<Rightarrow> MemoryContextType \<Rightarrow> addr option" where
  "cache_lookup cm ctxType = map_of (cache_list cm) ctxType"

definition newDefaultConfig :: ContextConfig where
  "newDefaultConfig =
     \<lparr>MaxReferences = 10, MaxIdleTime = 5 * 60 * 1000000000,
      CleanupInterval = 60 * 1000000000\<rparr>"

definition NewContextManager :: "ContextConfig option \<Rightarrow> ContextManager" where
  "NewContextManager cfg =
     \<lparr>ctxCache = Some [],
      config = Some (case cfg of None \<Rightarrow> newDefaultConfig | Some c \<Rightarrow> c),
      stopChan = Some ChanOpen,
      cm_closed = False\<rparr>"

definition StopCleanup :: "ContextManager \<Rightarrow> ContextManager outcome" where
  "StopCleanup cm =
     (case stopChan cm of
        Some ChanOpen \<Rightarrow> Returns (cm\<lparr>stopChan := Some ChanClosed\<rparr>)
      | Some ChanClosed \<Rightarrow> Panics
      | None \<Rightarrow> Panics)"

definition GetOrCreateContext ::
  "ContextManager \<Rightarrow> heap \<Rightarrow> MemoryContextType \<Rightarrow> MemoryContextConfig \<Rightarrow> int
     \<Rightarrow> ((ptr \<times> bool \<times> error option) \<times> ContextManager \<times> heap) outcome" where
  "GetOrCreateContext cm h ctxType cfg now =
     (if ctxType = [] then Returns ((None, False, Some ErrInvalidContextType), cm, h)
      else (case cache_lookup cm ctxType of
              None \<Rightarrow>
                (let (ctx, h1) = NewMemoryContext h cfg now;
                     h2 = upd_ctx h1 ctx (\<lambda>c. c\<lparr>active := True, referenceCount := 1\<rparr>)
                 in case ctxCache cm of
                      None \<Rightarrow> Panics
                    | Some m \<Rightarrow>
                        Returns ((Some ctx, False, None),
                                 cm\<lparr>ctxCache := Some (AList.update ctxType ctx m)\<rparr>, h2))
            | Some ctx \<Rightarrow>
                (if closed (ctxs h ctx)
                 then Returns ((None, False, Some ErrContextClosed), cm, h)
                 else (case config cm of
                         None \<Rightarrow> Panics
                       | Some c \<Rightarrow>
                           (if sint (MaxReferences c) > 0
                               \<and> sint (referenceCount (ctxs h ctx)) \<ge> sint (MaxReferences c)
                            then Returns ((None, False, Some ErrMaxReferencesReached), cm, h)
                            else Returns ((Some ctx, True, None), cm,
                                   upd_ctx h ctx
                                     (\<lambda>c. c\<lparr>referenceCount := referenceCount c + 1\<rparr>)))))))"

definition ReturnContext :: "heap \<Rightarrow> ptr \<Rightarrow> error option \<times> heap" where
  "ReturnContext h ctxp =
     (case ctxp of
        None \<Rightarrow> (Some ErrReturnNil, h)
      | Some ctx \<Rightarrow>
         (if closed (ctxs h ctx) then (Some ErrContextClosed, h)
          else (let h1 = (if sint (referenceCount (ctxs h ctx)) > 0
                          then upd_ctx h ctx (\<lambda>c. c\<lparr>referenceCount := referenceCount c - 1\<rparr>)
                          else h)
                in (None, upd_ctx h1 ctx
                            (\<lambda>c. c\<lparr>active := (sint (referenceCount c) > 0)\<rparr>)))))"

text \<open>
  \<open>muHeld\<close> says whether the calling goroutine holds the manager's mutex: with
  \<open>locked = False\<close> the call takes it, and blocks if the caller has it already.
\<close>

definition CloseContext ::
  "nat \<Rightarrow> bool \<Rightarrow> ContextManager \<Rightarrow> heap \<Rightarrow> MemoryContextType \<Rightarrow> bool
     \<Rightarrow> (error option \<times> ContextManager \<times> heap) outcome option" where
  "CloseContext fuel muHeld cm h ctxType locked =
     (if \<not> locked \<and> muHeld then Some Deadlocks
      else (case cache_lookup cm ctxType of
              None \<Rightarrow> Some (Returns (Some ErrContextNotFound, cm, h))
            | Some ctx \<Rightarrow>
               (if sint (referenceCount (ctxs h ctx)) > 0
                then Some (Returns (Some ErrContextInUse, cm, h))
                else (case Close fuel [] h (Some ctx) of
                        None \<Rightarrow> None
                      | Some Panics \<Rightarrow> Some Panics
                      | Some Deadlocks \<Rightarrow> Some Deadlocks
                      | Some (Returns (Some err, h1)) \<Rightarrow>
                          Some (Returns
                            (Some (Errorf (''error closing context '' @ ctxType) err), cm, h1))
                      | Some (Returns (None, h1)) \<Rightarrow>
                          Some (Returns
                            (None,
                             cm\<lparr>ctxCache := map_option (AList.delete ctxType) (ctxCache cm)\<rparr>,
                             h1))))))"

definition ValidateContext :: "heap \<Rightarrow> ptr \<Rightarrow> bool" where
  "ValidateContext h ctxp =
     (case ctxp of None \<Rightarrow> False | Some ctx \<Rightarrow> \<not> closed (ctxs h ctx) \<and> active (ctxs h ctx))"

text \<open>
  One round of the loop of \<^verbatim>\<open>cleanupIdleContexts\<close>; \<open>clock\<close> gives the reading of
  \<^verbatim>\<open>time.Now()\<close> taken when the entry of a key is examined. An error of
  \<^verbatim>\<open>CloseContext\<close> is printed and the scan goes on.
\<close>

definition reap_entry ::
  "nat \<Rightarrow> (MemoryContextType \<Rightarrow> int) \<Rightarrow> ContextManager \<times> heap \<Rightarrow> MemoryContextType \<times> addr
     \<Rightarrow> (ContextManager \<times> heap) outcome option" where
  "reap_entry fuel clock s e =
     (case (s, e) of ((cm, h), (ctxType, ctx)) \<Rightarrow>
        (if active (ctxs h ctx) then Some (Returns (cm, h))
         else (case config cm of
                 None \<Rightarrow> Some Panics
               | Some c \<Rightarrow>
                  (if clock ctxType - lastUsed (ctxs h ctx) > MaxIdleTime c
                   then (case CloseContext fuel True cm h ctxType True of
                           None \<Rightarrow> None
                         | Some Panics \<Rightarrow> Some Panics
                         | Some Deadlocks \<Rightarrow> Some Deadlocks
                         | Some (Returns (err, cm1, h1)) \<Rightarrow> Some (Returns (cm1, h1)))
                   else Some (Returns (cm, h))))))"

fun reap_loop ::
  "nat \<Rightarrow> (MemoryContextType \<Rightarrow> int) \<Rightarrow> ContextManager \<times> heap
     \<Rightarrow> (MemoryContextType \<times> addr) list \<Rightarrow> (ContextManager \<times> heap) outcome option" where
  "reap_loop fuel clock s [] = Some (Returns s)"
| "reap_loop fuel clock s (e # es) =
     (case reap_entry fuel clock s e of
        None \<Rightarrow> None
      | Some Panics \<Rightarrow> Some Panics
      | Some Deadlocks \<Rightarrow> Some Deadlocks
      | Some (Returns s1) \<Rightarrow> reap_loop fuel clock s1 es)"

definition cleanupIdleContexts ::
  "nat \<Rightarrow> (MemoryContextType \<Rightarrow> int) \<Rightarrow> ContextManager \<Rightarrow> heap
     \<Rightarrow> (ContextManager \<times> heap) outcome option" where
  "cleanupIdleContexts fuel clock cm h = reap_loop fuel clock (cm, h) (cache_list cm)"

text \<open>The loop of the manager's \<^verbatim>\<open>Close\<close> over the keys of the registry.\<close>

fun close_all ::
  "nat \<Rightarrow> ContextManager \<Rightarrow> heap \<Rightarrow> MemoryContextType list
     \<Rightarrow> (error option \<times> ContextManager \<times> heap) outcome option" where
  "close_all fuel cm h [] = Some (Returns (None, cm, h))"
| "close_all fuel cm h (ctxType # ks) =
     (case CloseContext fuel False cm h ctxType False of
        None \<Rightarrow> None
      | Some Panics \<Rightarrow> Some Panics
      | Some Deadlocks \<Rightarrow> Some Deadlocks
      | Some (Returns (Some err, cm1, h1)) \<Rightarrow>
          Some (Returns (Some (Errorf (''error closing context '' @ ctxType) err), cm1, h1))
      | Some (Returns (None, cm1, h1)) \<Rightarrow> close_all fuel cm1 h1 ks)"

definition ContextManager_Close ::
  "nat \<Rightarrow> ContextManager \<Rightarrow> heap \<Rightarrow> (error option \<times> ContextManager \<times> heap) outcome option" where
  "ContextManager_Close fuel cm h =
     (if cm_closed cm then Some (Returns (Some ErrContextManagerClosed, cm, h))
      else (case config cm of
              None \<Rightarrow> Some Panics
            | Some c \<Rightarrow>
               (case (if CleanupInterval c > 0 then StopCleanup cm else Returns cm) of
                  Panics \<Rightarrow> Some Panics
                | Deadlocks \<Rightarrow> Some Deadlocks
                | Returns cm1 \<Rightarrow>
                   (case close_all fuel cm1 h (map fst (cache_list cm1)) of
                      None \<Rightarrow> None
                    | Some Panics \<Rightarrow> Some Panics
                    | Some Deadlocks \<Rightarrow> Some Deadlocks
                    | Some (Returns (Some err, cm2, h2)) \<Rightarrow> Some (Returns (Some err, cm2, h2))
                    | Some (Returns (None, cm2, h2)) \<Rightarrow>
                        Some (Returns
                          (None,
                           cm2\<lparr>stopChan := None, ctxCache := None, config := None,
                               cm_closed := True\<rparr>,
                           h2))))))"

section \<open>Runs of calls on one key\<close>

text \<open>
  A caller working on one key calls \<^verbatim>\<open>GetOrCreateContext\<close> for that key and hands the
  pointer it was given back to \<^verbatim>\<open>ReturnContext\<close>. That pointer is the registry's entry
  for the key (nil as long as nothing was created). The tally counts the calls that
  returned no error: creations, shares, returns, and the returns that found a positive
  count.
\<close>

datatype op = OpGet MemoryContextConfig int | OpReturn

record tally =
  creates :: nat
  shares :: nat
  returns :: nat
  effective :: nat


definition tally_get :: "bool \<Rightarrow> error option \<Rightarrow> tally \<Rightarrow> tally" where
  "tally_get existing err t =
     (if err \<noteq> None then t
      else if existing then t\<lparr>shares := Suc (shares t)\<rparr>
      else t\<lparr>creates := Suc (creates t)\<rparr>)"

definition tally_return :: "bool \<Rightarrow> error option \<Rightarrow> tally \<Rightarrow> tally" where
  "tally_return positive err t =
     (if err \<noteq> None then t
      else if positive then t\<lparr>returns := Suc (returns t), effective := Suc (effective t)\<rparr>
      else t\<lparr>returns := Suc (returns t)\<rparr>)"

definition count_at :: "heap \<Rightarrow> ptr \<Rightarrow> int" where
  "count_at h p = (case p of None \<Rightarrow> 0 | Some ctx \<Rightarrow> sint (referenceCount (ctxs h ctx)))"

fun run ::
  "MemoryContextType \<Rightarrow> ContextManager \<times> heap \<times> tally \<Rightarrow> op list
     \<Rightarrow> (ContextManager \<times> heap \<times> tally) outcome" where
  "run k s [] = Returns s"
| "run k (cm, h, t) (OpGet cfg now # ops) =
     (case GetOrCreateContext cm h k cfg now of
        Panics \<Rightarrow> Panics
      | Deadlocks \<Rightarrow> Deadlocks
      | Returns ((p, existing, err), cm1, h1) \<Rightarrow>
          run k (cm1, h1, tally_get existing err t) ops)"
| "run k (cm, h, t) (OpReturn # ops) =
     (case ReturnContext h (cache_lookup cm k) of
        (err, h1) \<Rightarrow>
          run k (cm, h1, tally_return (count_at h (cache_lookup cm k) > 0) err t) ops)"

section \<open>Predicates on stores\<close>

text \<open>
  The invariant of the data model: a closed context has released its pools and
  children, counts no reference and is inactive.
\<close>

definition closed_inv :: "heap \<Rightarrow> bool" where
  "closed_inv h \<longleftrightarrow>
     (\<forall>b. closed (ctxs h b) \<longrightarrow>
        pools_list (ctxs h b) = [] \<and> children (ctxs h b) = []
        \<and> referenceCount (ctxs h b) = 0 \<and> \<not> active (ctxs h b))"

text \<open>The contexts below \<open>a\<close> (and \<open>a\<close> itself), following the child pointers of \<open>h\<close>.\<close>

inductive_set desc :: "heap \<Rightarrow> addr \<Rightarrow> addr set" for h :: heap and a :: addr where
  desc_self: "a \<in> desc h a"
| desc_child: "b \<in> desc h a \<Longrightarrow> Some c \<in> set (children (ctxs h b)) \<Longrightarrow> c \<in> desc h a"

text \<open>
  From \<open>h\<close> to \<open>h'\<close> every context is either as it was or was open and has been
  closed and cleared, and no pool has been reopened.
\<close>

definition evolves :: "heap \<Rightarrow> heap \<Rightarrow> bool" where
  "evolves h h' \<longleftrightarrow>
     (\<forall>b. ctxs h' b = ctxs h b
          \<or> (\<not> closed (ctxs h b) \<and> ctxs h' b = cleared (ctxs h b)))
     \<and> (\<forall>p. pool_closed (pls h p) \<longrightarrow> pool_closed (pls h' p))"

text \<open>
  Every context closed between \<open>h\<close> and \<open>h'\<close> has all the children and pools it had
  in \<open>h\<close> closed in \<open>h'\<close>.
\<close>

definition closed_down :: "heap \<Rightarrow> heap \<Rightarrow> bool" where
  "closed_down h h' \<longleftrightarrow>
     (\<forall>b. closed (ctxs h' b) \<and> \<not> closed (ctxs h b) \<longrightarrow>
        (\<forall>c. c \<in> set (children (ctxs h b)) \<longrightarrow> (\<exists>a. c = Some a \<and> closed (ctxs h' a)))
        \<and> (\<forall>e. e \<in> set (pools_list (ctxs h b)) \<longrightarrow> pool_closed (pls h' (snd e))))"

definition close_ok :: "addr list \<Rightarrow> heap \<Rightarrow> heap \<Rightarrow> bool" where
  "close_ok held h h' \<longleftrightarrow>
     evolves h h' \<and> closed_down h h' \<and> (\<forall>b. b \<in> set held \<longrightarrow> ctxs h' b = ctxs h b)"


text \<open>
  What the reaper asks of a context before it closes it: inactive, idle for longer than
  \<open>MaxIdleTime\<close> at the reading \<open>now\<close> of the clock, and (checked by
  \<^verbatim>\<open>CloseContext\<close>) no positive reference count.
\<close>

definition reapable :: "ContextConfig \<Rightarrow> int \<Rightarrow> MemoryContext \<Rightarrow> bool" where
  "reapable c now ctx \<longleftrightarrow>
     \<not> active ctx \<and> now - lastUsed ctx > MaxIdleTime c \<and> \<not> 0 < sint (referenceCount ctx)"

text \<open>Every child pointer of the store is an address below \<open>N\<close>.\<close>

definition children_below :: "nat \<Rightarrow> heap \<Rightarrow> bool" where
  "children_below N h \<longleftrightarrow> (\<forall>b c. Some c \<in> set (children (ctxs h b)) \<longrightarrow> c < N)"

text \<open>
  The contexts that a \<^verbatim>\<open>Close\<close> of \<open>a\<close> reaches: \<open>a\<close> itself and, below every context
  that is still open, its children. A closed context is reached but not entered.
\<close>

inductive_set open_desc :: "heap \<Rightarrow> addr \<Rightarrow> addr set" for h :: heap and a :: addr where
  open_self: "a \<in> open_desc h a"
| open_child: "b \<in> open_desc h a \<Longrightarrow> \<not> closed (ctxs h b)
                 \<Longrightarrow> Some c \<in> set (children (ctxs h b)) \<Longrightarrow> c \<in> open_desc h a"


section \<open>Concrete states\<close>

definition ctx0 :: MemoryContext where
  "ctx0 = \<lparr>active = False, closed = False, referenceCount = 0, contextType = [],
           parent = None, children = [], pools = None, createdAt = 0, lastUsed = 0\<rparr>"

definition pool0 :: pool where
  "pool0 = \<lparr>pool_closed = False, close_error = None, idle = []\<rparr>"

definition heap0 :: heap where
  "heap0 = \<lparr>ctxs = (\<lambda>a. ctx0), pls = (\<lambda>a. pool0), nextCtx = 0, nextPool = 0\<rparr>"

definition cfg0 :: MemoryContextConfig where
  "cfg0 = \<lparr>Parent = None, ContextType = ''a''\<rparr>"

definition node :: "ptr list \<Rightarrow> paddr \<Rightarrow> MemoryContext" where
  "node cs p = ctx0\<lparr>children := cs, pools := Some [(''buf'', p)]\<rparr>"

text \<open>A tree of three levels, each context owning one pool.\<close>

definition tree3 :: heap where
  "tree3 = \<lparr>ctxs = (\<lambda>a. ctx0)(0 := node [Some 1] 0, 1 := node [Some 2] 1, 2 := node [] 2),
            pls = (\<lambda>a. pool0), nextCtx = 3, nextPool = 3\<rparr>"

text \<open>A manager whose registry holds one context, at address 0, under the key \<open>''a''\<close>.\<close>

definition reg1 :: ContextManager where
  "reg1 = (NewContextManager None)\<lparr>ctxCache := Some [(''a'', 0)]\<rparr>"

definition one_ctx :: "MemoryContext \<Rightarrow> heap" where
  "one_ctx c = heap0\<lparr>ctxs := (ctxs heap0)(0 := c), nextCtx := 1\<rparr>"

text \<open>
  A registry of two contexts: the one under \<open>''a''\<close> is unreferenced and inactive, the
  one under \<open>''b''\<close> holds one reference.
\<close>

definition reg2 :: ContextManager where
  "reg2 = (NewContextManager None)\<lparr>ctxCache := Some [(''a'', 0), (''b'', 1)]\<rparr>"

definition two_ctx :: heap where
  "two_ctx = heap0\<lparr>ctxs := (ctxs heap0)(0 := ctx0\<lparr>pools := Some []\<rparr>,
                                          1 := ctx0\<lparr>active := True, referenceCount := 1\<rparr>),
                   nextCtx := 2\<rparr>"


section \<open>How \<^verbatim>\<open>Close\<close> changes the store\<close>

lemma evolves_refl: "evolves h h"
  by (simp add: evolves_def)

lemma evolves_closed: "evolves h h' \<Longrightarrow> closed (ctxs h b) \<Longrightarrow> ctxs h' b = ctxs h b"
  by (auto simp: evolves_def)

lemma evolves_closed': "evolves h h' \<Longrightarrow> closed (ctxs h b) \<Longrightarrow> closed (ctxs h' b)"
  by (drule (1) evolves_closed) simp

lemma evolves_open: "evolves h h' \<Longrightarrow> \<not> closed (ctxs h' b) \<Longrightarrow> ctxs h' b = ctxs h b"
  by (auto simp: evolves_def cleared_def)

lemma evolves_pool: "evolves h h' \<Longrightarrow> pool_closed (pls h p) \<Longrightarrow> pool_closed (pls h' p)"
  by (auto simp: evolves_def)

lemma evolves_trans: 
  assumes "evolves h h1" "evolves h1 h2" shows "evolves h h2"
  unfolding evolves_def
proof (intro conjI allI impI)
  fix b
  from assms(1) have a: "ctxs h1 b = ctxs h b \<or> (\<not> closed (ctxs h b) \<and> ctxs h1 b = cleared (ctxs h b))"
    by (simp add: evolves_def)
  from assms(2) have b: "ctxs h2 b = ctxs h1 b \<or> (\<not> closed (ctxs h1 b) \<and> ctxs h2 b = cleared (ctxs h1 b))"
    by (simp add: evolves_def)
  from a b show "ctxs h2 b = ctxs h b \<or> (\<not> closed (ctxs h b) \<and> ctxs h2 b = cleared (ctxs h b))"
    by (auto simp: cleared_def)
next
  fix p assume "pool_closed (pls h p)"
  with assms show "pool_closed (pls h2 p)" by (simp add: evolves_def)
qed

lemma closed_down_refl: "closed_down h h"
  by (simp add: closed_down_def)

lemma closed_down_trans:
  assumes e1: "evolves h h1" and e2: "evolves h1 h2"
    and d1: "closed_down h h1" and d2: "closed_down h1 h2"
  shows "closed_down h h2"
  unfolding closed_down_def
proof (intro allI impI conjI)
  fix b c
  assume b: "closed (ctxs h2 b) \<and> \<not> closed (ctxs h b)" and c: "c \<in> set (children (ctxs h b))"
  show "\<exists>a. c = Some a \<and> closed (ctxs h2 a)"
  proof (cases "closed (ctxs h1 b)")
    case True
    with b c d1 obtain a where "c = Some a" "closed (ctxs h1 a)"
      unfolding closed_down_def by blast
    with e2 show ?thesis by (auto dest: evolves_closed')
  next
    case False
    with e1 have "ctxs h1 b = ctxs h b" by (rule evolves_open)
    with False b c d2 show ?thesis unfolding closed_down_def by metis
  qed
next
  fix b e
  assume b: "closed (ctxs h2 b) \<and> \<not> closed (ctxs h b)" and c: "e \<in> set (pools_list (ctxs h b))"
  show "pool_closed (pls h2 (snd e))"
  proof (cases "closed (ctxs h1 b)")
    case True
    with b c d1 have "pool_closed (pls h1 (snd e))"
      unfolding closed_down_def by blast
    with e2 show ?thesis by (auto dest: evolves_pool)
  next
    case False
    with e1 have "ctxs h1 b = ctxs h b" by (rule evolves_open)
    with False b c d2 show ?thesis unfolding closed_down_def by metis
  qed
qed

lemma close_ok_refl: "close_ok held h h"
  by (simp add: close_ok_def evolves_refl closed_down_refl)

lemma close_ok_trans: "close_ok held h h1 \<Longrightarrow> close_ok held h1 h2 \<Longrightarrow> close_ok held h h2"
  unfolding close_ok_def
  by (auto intro: evolves_trans closed_down_trans)

lemma close_ok_weaken: "close_ok (mc # held) h h' \<Longrightarrow> close_ok held h h'"
  by (simp add: close_ok_def)

lemma pool_Close_cases:
  "pool_Close p = (r, p') \<Longrightarrow>
     (pool_closed p \<longrightarrow> pool_closed p') \<and> (r = None \<longrightarrow> pool_closed p')"
  by (auto simp: pool_Close_def split: option.splits)

lemma close_pools_frame:
  "close_pools h ps = (r, h') \<Longrightarrow>
     ctxs h' = ctxs h \<and> nextCtx h' = nextCtx h
     \<and> (\<forall>p. pool_closed (pls h p) \<longrightarrow> pool_closed (pls h' p))
     \<and> (r = None \<longrightarrow> (\<forall>e. e \<in> set ps \<longrightarrow> pool_closed (pls h' (snd e))))"
proof (induction ps arbitrary: h)
  case Nil
  then show ?case by simp
next
  case (Cons e ps)
  obtain t pa where e: "e = (t, pa)" by (cases e)
  obtain r1 p1 where pc: "pool_Close (pls h pa) = (r1, p1)" by (cases "pool_Close (pls h pa)")
  note pcs = pool_Close_cases [OF pc]
  show ?case
  proof (cases r1)
    case (Some err)
    with Cons.prems e pc pcs show ?thesis by (auto simp: upd_pool_def)
  next
    case None
    with Cons.prems e pc have rec: "close_pools (upd_pool h pa p1) ps = (r, h')" by simp
    from Cons.IH [OF rec] None pcs show ?thesis
      by (auto simp: upd_pool_def e split: if_splits)
  qed
qed

lemma close_pools_ok:
  assumes "close_pools h ps = (r, h')"
  shows "close_ok held h h'"
  using close_pools_frame [OF assms]
  by (simp add: close_ok_def evolves_def closed_down_def)

lemma close_children_ok:
  assumes cl: "\<And>h p r h'. cl h p = Some (Returns (r, h')) \<Longrightarrow>
                 close_ok held h h' \<and> (r = None \<longrightarrow> (\<exists>a. p = Some a \<and> closed (ctxs h' a)))"
    and run: "close_children cl h cs = Some (Returns (r, h'))"
  shows "close_ok held h h'
         \<and> (r = None \<longrightarrow> (\<forall>c. c \<in> set cs \<longrightarrow> (\<exists>a. c = Some a \<and> closed (ctxs h' a))))"
  using run
proof (induction cs arbitrary: h)
  case Nil
  then show ?case by (simp add: close_ok_refl)
next
  case (Cons c cs)
  from Cons.prems obtain r1 h1 where c1: "cl h c = Some (Returns (r1, h1))"
    by (auto split: option.splits outcome.splits)
  note ok1 = cl [OF c1]
  show ?case
  proof (cases r1)
    case (Some err)
    with Cons.prems c1 ok1 show ?thesis by auto
  next
    case None
    with Cons.prems c1 have rec: "close_children cl h1 cs = Some (Returns (r, h'))" by simp
    note ih = Cons.IH [OF rec]
    from ok1 None obtain a where a: "c = Some a" "closed (ctxs h1 a)" by auto
    from ih have "evolves h1 h'" by (simp add: close_ok_def)
    with a have "closed (ctxs h' a)" by (auto dest: evolves_closed')
    with a ih ok1 show ?thesis by (auto intro: close_ok_trans)
  qed
qed

lemma Close_ok:
  "Close n held h p = Some (Returns (r, h')) \<Longrightarrow>
     close_ok held h h' \<and> (r = None \<longrightarrow> (\<exists>a. p = Some a \<and> closed (ctxs h' a)))"
proof (induction n arbitrary: held h p r h')
  case 0
  then show ?case by simp
next
  case (Suc n)
  from Suc.prems obtain mc where p: "p = Some mc" and nheld: "mc \<notin> set held"
    by (auto split: option.splits if_splits)
  show ?case
  proof (cases "closed (ctxs h mc)")
    case True
    with Suc.prems p nheld show ?thesis by (auto simp: close_ok_refl)
  next
    case False
    obtain r1 h1 where cp: "close_pools h (pools_list (ctxs h mc)) = (r1, h1)"
      by (cases "close_pools h (pools_list (ctxs h mc))")
    note fr1 = close_pools_frame [OF cp]
    have ok1: "close_ok held h h1" using cp by (rule close_pools_ok)
    show ?thesis
    proof (cases r1)
      case (Some err)
      with Suc.prems p nheld False cp ok1 show ?thesis by auto
    next
      case None
      with Suc.prems p nheld False cp obtain r2 h2 where
        cc: "close_children (Close n (mc # held)) h1 (children (ctxs h1 mc)) = Some (Returns (r2, h2))"
        and res: "(r2 \<noteq> None \<and> r = r2 \<and> h' = h2) \<or> (r2 = None \<and> r = None \<and> h' = upd_ctx h2 mc cleared)"
        by (auto split: option.splits outcome.splits)
      have ok2: "close_ok (mc # held) h1 h2
         \<and> (r2 = None \<longrightarrow> (\<forall>c. c \<in> set (children (ctxs h1 mc)) \<longrightarrow> (\<exists>a. c = Some a \<and> closed (ctxs h2 a))))"
        by (rule close_children_ok [OF _ cc]) (rule Suc.IH)
      then have ok2': "close_ok held h1 h2" by (auto dest: close_ok_weaken)
      have ok12: "close_ok held h h2" using ok1 ok2' by (rule close_ok_trans)
      have same: "ctxs h2 mc = ctxs h mc"
        using ok2 fr1 by (simp add: close_ok_def)
      show ?thesis
      proof (cases r2)
        case (Some err)
        with res ok12 show ?thesis by auto
      next
        case None2: None
        with res have h': "h' = upd_ctx h2 mc cleared" and r: "r = None" by auto
        have ev: "evolves h2 h'"
          using False same by (auto simp: evolves_def h' upd_ctx_def)
        have e12: "evolves h1 h2" using ok2' by (simp add: close_ok_def)
        have cd: "closed_down h2 h'"
          unfolding closed_down_def
        proof (intro allI impI conjI)
          fix b c assume b: "closed (ctxs h' b) \<and> \<not> closed (ctxs h2 b)"
            and c: "c \<in> set (children (ctxs h2 b))"
          from b have bmc: "b = mc" by (auto simp: h' upd_ctx_def split: if_splits)
          with c same fr1 have "c \<in> set (children (ctxs h1 mc))" by simp
          with ok2 None2 obtain a where a: "c = Some a" "closed (ctxs h2 a)" by auto
          from ev a(2) have "closed (ctxs h' a)" by (rule evolves_closed')
          with a show "\<exists>a. c = Some a \<and> closed (ctxs h' a)" by simp
        next
          fix b e assume b: "closed (ctxs h' b) \<and> \<not> closed (ctxs h2 b)"
            and e: "e \<in> set (pools_list (ctxs h2 b))"
          from b have bmc: "b = mc" by (auto simp: h' upd_ctx_def split: if_splits)
          with e same have "e \<in> set (pools_list (ctxs h mc))" by simp
          with fr1 \<open>r1 = None\<close> have "pool_closed (pls h1 (snd e))" by (cases e) auto
          with e12 have "pool_closed (pls h2 (snd e))" by (rule evolves_pool)
          then show "pool_closed (pls h' (snd e))" by (simp add: h' upd_ctx_def)
        qed
        have fr: "\<forall>b. b \<in> set held \<longrightarrow> ctxs h' b = ctxs h2 b"
          using nheld by (auto simp: h' upd_ctx_def)
        have "close_ok held h2 h'" using ev cd fr by (simp add: close_ok_def)
        with ok12 have "close_ok held h h'" by (rule close_ok_trans)
        moreover have "closed (ctxs h' mc)" by (simp add: h' upd_ctx_def cleared_def)
        ultimately show ?thesis using p by simp
      qed
    qed
  qed
qed

lemma cleared_fields [simp]:
  "closed (cleared c)" "pools_list (cleared c) = []" "children (cleared c) = []"
  "\<not> active (cleared c)" "referenceCount (cleared c) = 0" "lastUsed (cleared c) = lastUsed c"
  by (simp_all add: cleared_def pools_list_def)

lemma closed_inv_evolves:
  assumes "closed_inv h" "evolves h h'" shows "closed_inv h'"
  unfolding closed_inv_def
proof (intro allI impI)
  fix b assume c: "closed (ctxs h' b)"
  from assms(2) have "ctxs h' b = ctxs h b \<or> ctxs h' b = cleared (ctxs h b)"
    by (auto simp: evolves_def)
  then show "pools_list (ctxs h' b) = [] \<and> children (ctxs h' b) = []
        \<and> referenceCount (ctxs h' b) = 0 \<and> \<not> active (ctxs h' b)"
  proof
    assume "ctxs h' b = ctxs h b"
    with c assms(1) show ?thesis by (simp add: closed_inv_def)
  next
    assume "ctxs h' b = cleared (ctxs h b)"
    then show ?thesis by simp
  qed
qed

lemma tree3_inv: "closed_inv tree3"
  by (simp add: closed_inv_def tree3_def node_def ctx0_def)

lemma tree3_desc: "1 \<in> desc tree3 0" "2 \<in> desc tree3 0"
proof -
  have 0: "0 \<in> desc tree3 0" by (rule desc_self)
  show 1: "1 \<in> desc tree3 0"
    by (rule desc_child [OF 0]) (simp add: tree3_def node_def)
  show "2 \<in> desc tree3 0"
    by (rule desc_child [OF 1]) (simp add: tree3_def node_def)
qed

lemma tree3_Close: "\<exists>h'. Close 3 [] tree3 (Some 0) = Some (Returns (None, h'))"
  by (simp add: numeral_3_eq_3 tree3_def node_def ctx0_def pool0_def pools_list_def
      pool_Close_def upd_pool_def upd_ctx_def cleared_def)

section \<open>Facts about single operations\<close>

lemmas eval_defs = GetOrCreateContext_def NewContextManager_def cache_lookup_def cache_list_def
  NewMemoryContext_def upd_ctx_def ReturnContext_def newDefaultConfig_def heap0_def cfg0_def
  ctx0_def pool0_def

lemma GetOrCreateContext_nil_cache:
  "ctxCache cm = None \<Longrightarrow> ctxType \<noteq> [] \<Longrightarrow> GetOrCreateContext cm h ctxType cfg now = Panics"
  by (simp add: GetOrCreateContext_def cache_lookup_def cache_list_def NewMemoryContext_def Let_def)

lemma CreateChild_open_deadlocks:
  "\<not> closed (ctxs h mc) \<Longrightarrow> CreateChild h mc now = Deadlocks"
  by (simp add: CreateChild_def RegisterChild_def allocate_def NewMemoryContext_def Let_def)

lemma share_lastUsed:
  "GetOrCreateContext cm h ctxType cfg now = Returns ((p, True, err), cm1, h1) \<Longrightarrow>
     lastUsed (ctxs h1 a) = lastUsed (ctxs h a)"
  by (auto simp: GetOrCreateContext_def NewMemoryContext_def upd_ctx_def Let_def
      split: option.splits if_splits)

lemma create_lastUsed:
  "GetOrCreateContext cm h ctxType cfg now = Returns ((Some ctx, False, None), cm1, h1) \<Longrightarrow>
     lastUsed (ctxs h1 ctx) = now \<and> createdAt (ctxs h1 ctx) = now
     \<and> (\<forall>a. a \<noteq> ctx \<longrightarrow> ctxs h1 a = ctxs h a)"
  by (auto simp: GetOrCreateContext_def NewMemoryContext_def upd_ctx_def Let_def
      split: option.splits if_splits)

lemma ReturnContext_lastUsed:
  "lastUsed (ctxs (snd (ReturnContext h q)) a) = lastUsed (ctxs h a)"
  by (simp add: ReturnContext_def upd_ctx_def Let_def split: option.splits)

lemma Acquire_ctxs: "ctxs (snd (Acquire pool_Get h mm objectType)) = ctxs h"
  by (simp add: Acquire_def upd_pool_def split: option.splits prod.splits)

lemma Release_ctxs: "ctxs (snd (Release pool_Put h mm objectType ob)) = ctxs h"
  by (simp add: Release_def upd_pool_def split: option.splits)

lemma cache_lookup_delete:
  "cache_lookup (cm\<lparr>ctxCache := map_option (AList.delete k) (ctxCache cm)\<rparr>) k'
     = (if k' = k then None else cache_lookup cm k')"
  by (cases "ctxCache cm") (simp_all add: cache_lookup_def cache_list_def delete_conv')


lemma ReturnContext_open:
  "\<not> closed (ctxs h ctx) \<Longrightarrow>
     ReturnContext h (Some ctx) =
       (None, upd_ctx h ctx (\<lambda>c. c\<lparr>referenceCount :=
                 (if sint (referenceCount c) > 0 then referenceCount c - 1 else referenceCount c),
               active := (sint (if sint (referenceCount c) > 0 then referenceCount c - 1
                                else referenceCount c) > 0)\<rparr>))"
  by (simp add: ReturnContext_def upd_ctx_def Let_def)



lemma cache_lookup_update:
  "ctxCache cm = Some m \<Longrightarrow>
     cache_lookup (cm\<lparr>ctxCache := Some (AList.update k a m)\<rparr>) k' =
       (if k' = k then Some a else cache_lookup cm k')"
  by (simp add: cache_lookup_def cache_list_def update_conv')




section \<open>The reaper\<close>

lemma evolves_children:
  "evolves h h' \<Longrightarrow> c \<in> set (children (ctxs h' b)) \<Longrightarrow> c \<in> set (children (ctxs h b))"
proof -
  assume e: "evolves h h'" and c: "c \<in> set (children (ctxs h' b))"
  from e have "ctxs h' b = ctxs h b \<or> ctxs h' b = cleared (ctxs h b)"
    by (auto simp: evolves_def)
  with c show ?thesis by auto
qed

lemma evolves_lastUsed: "evolves h h' \<Longrightarrow> lastUsed (ctxs h' b) = lastUsed (ctxs h b)"
proof -
  assume e: "evolves h h'"
  then have "ctxs h' b = ctxs h b \<or> ctxs h' b = cleared (ctxs h b)"
    by (auto simp: evolves_def)
  then show ?thesis by auto
qed

lemma close_children_touches:
  assumes cl: "\<And>h p r h'. cl h p = Some (Returns (r, h')) \<Longrightarrow>
                 evolves h h'
                 \<and> (\<forall>x. ctxs h' x \<noteq> ctxs h x \<longrightarrow>
                        p = Some x \<or> (\<exists>b. Some x \<in> set (children (ctxs h b))))"
    and run: "close_children cl h cs = Some (Returns (r, h'))"
  shows "evolves h h'
         \<and> (\<forall>x. ctxs h' x \<noteq> ctxs h x \<longrightarrow>
                Some x \<in> set cs \<or> (\<exists>b. Some x \<in> set (children (ctxs h b))))"
  using run
proof (induction cs arbitrary: h)
  case Nil
  then show ?case by (simp add: evolves_refl)
next
  case (Cons c cs)
  from Cons.prems obtain r1 h1 where c1: "cl h c = Some (Returns (r1, h1))"
    by (auto split: option.splits outcome.splits)
  note s1 = cl [OF c1]
  show ?case
  proof (cases r1)
    case (Some err)
    with Cons.prems c1 have "h' = h1" by simp
    with s1 show ?thesis by auto
  next
    case None
    with Cons.prems c1 have rec: "close_children cl h1 cs = Some (Returns (r, h'))" by simp
    note ih = Cons.IH [OF rec]
    from s1 ih have ev: "evolves h h'" by (auto intro: evolves_trans)
    have "\<forall>x. ctxs h' x \<noteq> ctxs h x \<longrightarrow>
                Some x \<in> set (c # cs) \<or> (\<exists>b. Some x \<in> set (children (ctxs h b)))"
    proof (intro allI impI)
      fix x assume ch: "ctxs h' x \<noteq> ctxs h x"
      show "Some x \<in> set (c # cs) \<or> (\<exists>b. Some x \<in> set (children (ctxs h b)))"
      proof (cases "ctxs h1 x = ctxs h x")
        case False
        with s1 show ?thesis by auto
      next
        case True
        with ch have "ctxs h' x \<noteq> ctxs h1 x" by simp
        with ih have "Some x \<in> set cs \<or> (\<exists>b. Some x \<in> set (children (ctxs h1 b)))" by blast
        then show ?thesis
        proof
          assume "Some x \<in> set cs" then show ?thesis by simp
        next
          assume "\<exists>b. Some x \<in> set (children (ctxs h1 b))"
          then obtain b where "Some x \<in> set (children (ctxs h1 b))" ..
          moreover from s1 have "evolves h h1" by (rule conjunct1)
          ultimately have "Some x \<in> set (children (ctxs h b))"
            by (rule evolves_children [rotated])
          then show ?thesis by blast
        qed
      qed
    qed
    with ev show ?thesis by simp
  qed
qed

lemma Close_evolves: "Close n held h p = Some (Returns (r, h')) \<Longrightarrow> evolves h h'"
  by (drule Close_ok) (simp add: close_ok_def)

lemma Close_touches:
  "Close n held h p = Some (Returns (r, h')) \<Longrightarrow> ctxs h' x \<noteq> ctxs h x \<Longrightarrow>
     p = Some x \<or> (\<exists>b. Some x \<in> set (children (ctxs h b)))"
proof (induction n arbitrary: held h p r h' x)
  case 0
  then show ?case by simp
next
  case (Suc n)
  from Suc.prems obtain mc where p: "p = Some mc" and nheld: "mc \<notin> set held"
    by (auto split: option.splits if_splits)
  show ?case
  proof (cases "closed (ctxs h mc)")
    case True
    with Suc.prems p nheld show ?thesis by auto
  next
    case False
    obtain r1 h1 where cp: "close_pools h (pools_list (ctxs h mc)) = (r1, h1)"
      by (cases "close_pools h (pools_list (ctxs h mc))")
    from close_pools_frame [OF cp] have same: "ctxs h1 = ctxs h" by simp
    show ?thesis
    proof (cases r1)
      case (Some err)
      with Suc.prems p nheld False cp have "h' = h1" by auto
      with same Suc.prems show ?thesis by simp
    next
      case None
      with Suc.prems(1) p nheld False cp obtain r2 h2 where
        cc: "close_children (Close n (mc # held)) h1 (children (ctxs h1 mc))
               = Some (Returns (r2, h2))"
        and res: "h' = h2 \<or> h' = upd_ctx h2 mc cleared"
        by (auto split: option.splits outcome.splits)
      have t2: "evolves h1 h2
         \<and> (\<forall>x. ctxs h2 x \<noteq> ctxs h1 x \<longrightarrow>
                Some x \<in> set (children (ctxs h1 mc))
                \<or> (\<exists>b. Some x \<in> set (children (ctxs h1 b))))"
      proof (rule close_children_touches [OF _ cc])
        fix ha pa ra ha'
        assume a: "Close n (mc # held) ha pa = Some (Returns (ra, ha'))"
        from a have "evolves ha ha'" by (rule Close_evolves)
        moreover have "\<forall>x. ctxs ha' x \<noteq> ctxs ha x \<longrightarrow>
                 pa = Some x \<or> (\<exists>b. Some x \<in> set (children (ctxs ha b)))"
          using Suc.IH [OF a] by blast
        ultimately show "evolves ha ha'
           \<and> (\<forall>x. ctxs ha' x \<noteq> ctxs ha x \<longrightarrow>
                 pa = Some x \<or> (\<exists>b. Some x \<in> set (children (ctxs ha b))))" by simp
      qed
      show ?thesis
      proof (cases "x = mc")
        case True
        with p show ?thesis by simp
      next
        case False
        with res have "ctxs h' x = ctxs h2 x" by (auto simp: upd_ctx_def)
        with Suc.prems(2) same have "ctxs h2 x \<noteq> ctxs h1 x" by simp
        with t2 have "\<exists>b. Some x \<in> set (children (ctxs h1 b))" by blast
        with same show ?thesis by simp
      qed
    qed
  qed
qed

lemma CloseContext_effect:
  assumes "CloseContext fuel mh cm h k locked = Some (Returns (e, cm', h'))"
  shows "evolves h h' \<and> config cm' = config cm
     \<and> (\<forall>k'. k' \<noteq> k \<longrightarrow> cache_lookup cm' k' = cache_lookup cm k')
     \<and> (cache_lookup cm' k = cache_lookup cm k \<or> cache_lookup cm' k = None)
     \<and> (\<forall>x. ctxs h' x \<noteq> ctxs h x \<longrightarrow>
            cache_lookup cm k = Some x \<or> (\<exists>b. Some x \<in> set (children (ctxs h b))))
     \<and> (cache_lookup cm' k \<noteq> cache_lookup cm k \<or> ctxs h' \<noteq> ctxs h \<longrightarrow>
          (\<exists>a. cache_lookup cm k = Some a \<and> \<not> 0 < sint (referenceCount (ctxs h a))))"
proof (cases "cache_lookup cm k")
  case None
  with assms show ?thesis
    by (auto simp: CloseContext_def evolves_refl split: if_splits)
next
  case (Some ctx)
  show ?thesis
  proof (cases "0 < sint (referenceCount (ctxs h ctx))")
    case True
    with Some assms show ?thesis
      by (auto simp: CloseContext_def evolves_refl split: if_splits)
  next
    case False
    with Some assms obtain r where
      cl: "Close fuel [] h (Some ctx) = Some (Returns (r, h'))"
      and cm': "cm' = cm \<or> cm' = cm\<lparr>ctxCache := map_option (AList.delete k) (ctxCache cm)\<rparr>"
      by (auto simp: CloseContext_def split: if_splits option.splits outcome.splits)
    from cl have ev: "evolves h h'" by (rule Close_evolves)
    have t: "\<forall>x. ctxs h' x \<noteq> ctxs h x \<longrightarrow>
            cache_lookup cm k = Some x \<or> (\<exists>b. Some x \<in> set (children (ctxs h b)))"
      using Close_touches [OF cl] Some by auto
    from cm' have c: "config cm' = config cm" by auto
    from cm' have l: "(\<forall>k'. k' \<noteq> k \<longrightarrow> cache_lookup cm' k' = cache_lookup cm k')
       \<and> (cache_lookup cm' k = cache_lookup cm k \<or> cache_lookup cm' k = None)"
      by (auto simp: cache_lookup_delete)
    from ev t c l Some False show ?thesis by simp
  qed
qed

lemma reap_entry_effect:
  assumes run: "reap_entry fuel clock (cm, h) (k, a) = Some (Returns (cm', h'))"
    and reg: "cache_lookup cm k = Some a"
    and cfg: "config cm = Some c"
  shows "evolves h h' \<and> config cm' = config cm
     \<and> (\<forall>k'. k' \<noteq> k \<longrightarrow> cache_lookup cm' k' = cache_lookup cm k')
     \<and> (cache_lookup cm' k = Some a \<or> cache_lookup cm' k = None)
     \<and> (\<forall>x. ctxs h' x \<noteq> ctxs h x \<longrightarrow>
            x = a \<or> (\<exists>b. Some x \<in> set (children (ctxs h b))))
     \<and> (cache_lookup cm' k = None \<or> ctxs h' \<noteq> ctxs h \<longrightarrow> reapable c (clock k) (ctxs h a))"
proof (cases "\<not> active (ctxs h a) \<and> clock k - lastUsed (ctxs h a) > MaxIdleTime c")
  case False
  with run cfg have "cm' = cm \<and> h' = h"
    by (auto simp: reap_entry_def split: if_splits)
  with reg show ?thesis by (simp add: evolves_refl)
next
  case True
  with run cfg obtain e where
    cc: "CloseContext fuel True cm h k True = Some (Returns (e, cm', h'))"
    by (auto simp: reap_entry_def split: if_splits option.splits outcome.splits)
  from CloseContext_effect [OF cc] reg True show ?thesis
    by (auto simp: reapable_def)
qed



lemma reap_loop_Cons:
  assumes "reap_loop fuel clock s (e # es) = Some (Returns s')"
  shows "\<exists>s1. reap_entry fuel clock s e = Some (Returns s1)
              \<and> reap_loop fuel clock s1 es = Some (Returns s')"
proof (cases "reap_entry fuel clock s e")
  case None
  with assms show ?thesis by simp
next
  case (Some out)
  with assms show ?thesis by (cases out) simp_all
qed

lemma reap_loop_keeps:
  assumes "reap_loop fuel clock (cm, h) es = Some (Returns (cm', h'))"
    and "distinct (map fst es)"
    and "\<forall>e. e \<in> set es \<longrightarrow> cache_lookup cm (fst e) = Some (snd e)"
    and "config cm = Some c"
    and "cache_lookup cm k = Some a"
    and "\<forall>k'. cache_lookup cm k' = Some a \<longrightarrow> k' = k"
    and "\<forall>b. Some a \<notin> set (children (ctxs h b))"
    and "\<not> reapable c (clock k) (ctxs h a)"
  shows "cache_lookup cm' k = Some a \<and> ctxs h' a = ctxs h a"
  using assms
proof (induction es arbitrary: cm h)
  case Nil
  from Nil.prems(1) have "cm' = cm" "h' = h" by simp_all
  with Nil.prems(5) show ?case by simp
next
  case (Cons e es)
  obtain k1 a1 where e: "e = (k1, a1)" by (cases e)
  from reap_loop_Cons [OF Cons.prems(1)] obtain s1 where
    "reap_entry fuel clock (cm, h) e = Some (Returns s1)"
    "reap_loop fuel clock s1 es = Some (Returns (cm', h'))" by blast
  then obtain cm1 h1 where
    st: "reap_entry fuel clock (cm, h) (k1, a1) = Some (Returns (cm1, h1))"
    and rest: "reap_loop fuel clock (cm1, h1) es = Some (Returns (cm', h'))"
    unfolding e by (cases s1) simp
  from Cons.prems(3) have reg1: "cache_lookup cm k1 = Some a1" by (simp add: e)
  note eff = reap_entry_effect [OF st reg1 Cons.prems(4)]
  from eff have ev: "evolves h h1" by (rule conjunct1)
  from eff have "config cm1 = config cm" by (elim conjE)
  with Cons.prems(4) have cf: "config cm1 = Some c" by simp
  from eff have oth: "\<forall>k'. k' \<noteq> k1 \<longrightarrow> cache_lookup cm1 k' = cache_lookup cm k'"
    by (elim conjE)
  from eff have own: "cache_lookup cm1 k1 = Some a1 \<or> cache_lookup cm1 k1 = None"
    by (elim conjE)
  from eff have tch: "\<forall>x. ctxs h1 x \<noteq> ctxs h x \<longrightarrow>
                x = a1 \<or> (\<exists>b. Some x \<in> set (children (ctxs h b)))"
    by (elim conjE)
  from eff have rp: "cache_lookup cm1 k1 = None \<or> ctxs h1 \<noteq> ctxs h \<longrightarrow>
                reapable c (clock k1) (ctxs h a1)"
    by (elim conjE)
  have keep: "cache_lookup cm1 k = Some a \<and> ctxs h1 a = ctxs h a"
  proof (cases "k1 = k")
    case True
    with reg1 Cons.prems(5) have a1: "a1 = a" by simp
    from Cons.prems(8) rp have "\<not> (cache_lookup cm1 k1 = None \<or> ctxs h1 \<noteq> ctxs h)"
      unfolding True a1 by blast
    with own show ?thesis unfolding True a1 by auto
  next
    case False
    with Cons.prems(6) reg1 have "a1 \<noteq> a" by auto
    with tch Cons.prems(7) have "ctxs h1 a = ctxs h a" by blast
    moreover from False oth have "cache_lookup cm1 k = cache_lookup cm k" by simp
    ultimately show ?thesis using Cons.prems(5) by simp
  qed
  have d: "distinct (map fst es)" using Cons.prems(2) by simp
  have r: "\<forall>e'. e' \<in> set es \<longrightarrow> cache_lookup cm1 (fst e') = Some (snd e')"
  proof (intro allI impI)
    fix e' assume m: "e' \<in> set es"
    with Cons.prems(2) have "fst e' \<noteq> k1" by (auto simp: e)
    with oth Cons.prems(3) m show "cache_lookup cm1 (fst e') = Some (snd e')" by simp
  qed
  have o: "\<forall>k'. cache_lookup cm1 k' = Some a \<longrightarrow> k' = k"
  proof (intro allI impI)
    fix k' assume l: "cache_lookup cm1 k' = Some a"
    have "cache_lookup cm k' = Some a"
    proof (cases "k' = k1")
      case True
      with l own reg1 show ?thesis by auto
    next
      case False
      with l oth show ?thesis by simp
    qed
    with Cons.prems(6) show "k' = k" by simp
  qed
  have t: "\<forall>b. Some a \<notin> set (children (ctxs h1 b))"
  proof (intro allI notI)
    fix b assume "Some a \<in> set (children (ctxs h1 b))"
    with ev have "Some a \<in> set (children (ctxs h b))" by (rule evolves_children)
    with Cons.prems(7) show False by simp
  qed
  have n: "\<not> reapable c (clock k) (ctxs h1 a)" using keep Cons.prems(8) by simp
  from keep have l1: "cache_lookup cm1 k = Some a" by (rule conjunct1)
  from Cons.IH [OF rest d r cf l1 o t n] keep show ?case by simp
qed

section \<open>Fuel\<close>

text \<open>
  The result of \<^verbatim>\<open>Close\<close> does not depend on the fuel once there is enough of it, and
  in a store whose child pointers are allocated addresses \<open>nextCtx h + 1\<close> is enough:
  each level of the recursion holds the mutex of one more context.
\<close>

lemma children_below_evolves:
  "children_below N h \<Longrightarrow> evolves h h' \<Longrightarrow> children_below N h'"
  unfolding children_below_def
proof (intro allI impI)
  fix b c
  assume a: "\<forall>b c. Some c \<in> set (children (ctxs h b)) \<longrightarrow> c < N"
    and e: "evolves h h'" and c: "Some c \<in> set (children (ctxs h' b))"
  from e c have "Some c \<in> set (children (ctxs h b))" by (rule evolves_children)
  with a show "c < N" by blast
qed

lemma close_children_total:
  assumes ok: "\<And>h c. children_below N h \<Longrightarrow> c \<in> set cs \<Longrightarrow> cl h c \<noteq> None"
    and pres: "\<And>h c r h'. cl h c = Some (Returns (r, h')) \<Longrightarrow> evolves h h'"
    and b: "children_below N h"
  shows "close_children cl h cs \<noteq> None"
  using ok b
proof (induction cs arbitrary: h)
  case Nil
  show ?case by simp
next
  case (Cons c cs)
  from Cons.prems(1) [OF Cons.prems(2), of c] obtain w where w: "cl h c = Some w" by auto
  show ?case
  proof (cases w)
    case (Returns x)
    obtain e h1 where x: "x = (e, h1)" by (cases x)
    show ?thesis
    proof (cases e)
      case None
      from w Returns x have "evolves h h1" by (auto dest: pres)
      with Cons.prems(2) have b1: "children_below N h1" by (rule children_below_evolves)
      have "close_children cl h1 cs \<noteq> None"
        by (rule Cons.IH [OF _ b1]) (rule Cons.prems(1), simp_all)
      with w Returns x None show ?thesis by simp
    next
      case (Some err)
      with w Returns x show ?thesis by simp
    qed
  next
    case Panics
    with w show ?thesis by simp
  next
    case Deadlocks
    with w show ?thesis by simp
  qed
qed


lemma close_children_mono:
  assumes cl: "\<And>h p r. cl h p = Some r \<Longrightarrow> cl' h p = Some r"
    and run: "close_children cl h cs = Some r"
  shows "close_children cl' h cs = Some r"
  using run
proof (induction cs arbitrary: h)
  case Nil
  then show ?case by simp
next
  case (Cons c cs)
  from Cons.prems obtain w where w: "cl h c = Some w"
    by (cases "cl h c") simp_all
  note w' = cl [OF w]
  show ?case
  proof (cases w)
    case (Returns x)
    obtain e h1 where x: "x = (e, h1)" by (cases x)
    show ?thesis
    proof (cases e)
      case None
      with Cons.prems w Returns x have "close_children cl h1 cs = Some r" by simp
      from Cons.IH [OF this] w' Returns x None show ?thesis by simp
    next
      case (Some err)
      with Cons.prems w w' Returns x show ?thesis by simp
    qed
  next
    case Panics
    with Cons.prems w w' show ?thesis by simp
  next
    case Deadlocks
    with Cons.prems w w' show ?thesis by simp
  qed
qed

lemma Close_fuel_Suc: "Close n held h p = Some r \<Longrightarrow> Close (Suc n) held h p = Some r"
proof (induction n arbitrary: held h p r)
  case 0
  then show ?case by simp
next
  case (Suc n)
  show ?case
  proof (cases p)
    case None
    with Suc.prems show ?thesis by simp
  next
    case (Some mc)
    show ?thesis
    proof (cases "mc \<in> set held \<or> closed (ctxs h mc)")
      case True
      with Suc.prems Some show ?thesis by auto
    next
      case False
      obtain r1 h1 where cp: "close_pools h (pools_list (ctxs h mc)) = (r1, h1)"
        by (cases "close_pools h (pools_list (ctxs h mc))")
      show ?thesis
      proof (cases r1)
        case (Some err)
        with Suc.prems \<open>p = Some mc\<close> False cp show ?thesis by simp
      next
        case None
        from Suc.prems \<open>p = Some mc\<close> False cp None obtain w where
          w: "close_children (Close n (mc # held)) h1 (children (ctxs h1 mc)) = Some w"
          by (cases "close_children (Close n (mc # held)) h1 (children (ctxs h1 mc))") simp_all
        have w': "close_children (Close (Suc n) (mc # held)) h1 (children (ctxs h1 mc)) = Some w"
          by (rule close_children_mono [OF _ w]) (rule Suc.IH)
        from Suc.prems have
          "Close (Suc n) held h (Some mc) = Some r" by (simp add: \<open>p = Some mc\<close>)
        with False cp None w have
          r: "(case w of
                 Returns (None, h2) \<Rightarrow> Some (Returns (None, upd_ctx h2 mc cleared))
               | Returns (Some err, h2) \<Rightarrow> Some (Returns (Some err, h2))
               | Panics \<Rightarrow> Some Panics
               | Deadlocks \<Rightarrow> Some Deadlocks) = Some r"
          by simp
        have "Close (Suc (Suc n)) held h (Some mc)
                = (case w of
                 Returns (None, h2) \<Rightarrow> Some (Returns (None, upd_ctx h2 mc cleared))
               | Returns (Some err, h2) \<Rightarrow> Some (Returns (Some err, h2))
               | Panics \<Rightarrow> Some Panics
               | Deadlocks \<Rightarrow> Some Deadlocks)"
          using False cp None w' by (subst Close.simps(2)) simp
        with r show ?thesis by (simp add: \<open>p = Some mc\<close>)
      qed
    qed
  qed
qed

lemma Close_fuel_mono: "Close n held h p = Some r \<Longrightarrow> Close (n + k) held h p = Some r"
  by (induction k) (simp_all add: Close_fuel_Suc del: Close.simps)


lemma Close_total:
  assumes "children_below N h" and "\<forall>a. p = Some a \<longrightarrow> a < N"
    and "set held \<subseteq> {..<N}" and "distinct held" and "N < n + length held"
  shows "Close n held h p \<noteq> None"
  using assms
proof (induction n arbitrary: held h p)
  case 0
  from 0(3,4) have "card (set held) \<le> card {..<N}" by (intro card_mono) simp_all
  with 0(4) have "length held \<le> N" by (simp add: distinct_card)
  with 0(5) show ?case by simp
next
  case (Suc n)
  show ?case
  proof (cases p)
    case None
    then show ?thesis by simp
  next
    case (Some mc)
    show ?thesis
    proof (cases "mc \<in> set held \<or> closed (ctxs h mc)")
      case True
      with Some show ?thesis by auto
    next
      case False
      obtain r1 h1 where cp: "close_pools h (pools_list (ctxs h mc)) = (r1, h1)"
        by (cases "close_pools h (pools_list (ctxs h mc))")
      from close_pools_frame [OF cp] have same: "ctxs h1 = ctxs h" by simp
      from Suc.prems(1) same have b1: "children_below N h1" by (simp add: children_below_def)
      from Suc.prems(2) Some have mcN: "mc < N" by simp
      have tot: "close_children (Close n (mc # held)) h1 (children (ctxs h1 mc)) \<noteq> None"
      proof (rule close_children_total [where N = N, OF _ _ b1])
        fix h2 c
        assume b2: "children_below N h2" and c: "c \<in> set (children (ctxs h1 mc))"
        from c b1 have cN: "\<forall>a. c = Some a \<longrightarrow> a < N" by (auto simp: children_below_def)
        from Suc.prems(3) mcN have s: "set (mc # held) \<subseteq> {..<N}" by simp
        from Suc.prems(4) False have d: "distinct (mc # held)" by simp
        from Suc.prems(5) have l: "N < n + length (mc # held)" by simp
        show "Close n (mc # held) h2 c \<noteq> None" by (rule Suc.IH [OF b2 cN s d l])
      next
        fix h2 c r h2'
        assume "Close n (mc # held) h2 c = Some (Returns (r, h2'))"
        then show "evolves h2 h2'" by (rule Close_evolves)
      qed
      then obtain w where
        w: "close_children (Close n (mc # held)) h1 (children (ctxs h1 mc)) = Some w" by auto
      show ?thesis
      proof (cases r1)
        case (Some err)
        with \<open>p = Some mc\<close> False cp show ?thesis by simp
      next
        case None
        with \<open>p = Some mc\<close> False cp w show ?thesis
          by (cases w) (auto split: option.splits)
      qed
    qed
  qed
qed

lemma Close_enough_fuel:
  assumes "children_below (nextCtx h) h" and "a < nextCtx h"
  shows "Close (Suc (nextCtx h)) [] h (Some a) \<noteq> None"
  by (rule Close_total [where N = "nextCtx h"]) (use assms in simp_all)

section \<open>The operations and the invariant of closed contexts\<close>

text \<open>
  Every operation keeps \<open>closed_inv\<close>; \<^verbatim>\<open>RegisterChild\<close> keeps it when the receiver is
  open.
\<close>

lemma closed_inv_same: "closed_inv h \<Longrightarrow> ctxs h' = ctxs h \<Longrightarrow> closed_inv h'"
  by (simp add: closed_inv_def)

lemma closed_inv_open_update:
  assumes "closed_inv h" and "\<not> closed (f (ctxs h a))"
  shows "closed_inv (upd_ctx h a f)"
  using assms by (simp add: closed_inv_def upd_ctx_def)

lemma closed_inv_GetOrCreateContext:
  assumes inv: "closed_inv h"
    and run: "GetOrCreateContext cm h ctxType cfg now = Returns (res, cm', h')"
  shows "closed_inv h'"
proof -
  have new: "closed_inv (upd_ctx (snd (NewMemoryContext h cfg now)) (nextCtx h)
                (\<lambda>c. c\<lparr>active := True, referenceCount := 1\<rparr>))"
    using inv by (simp add: closed_inv_def upd_ctx_def NewMemoryContext_def Let_def)
  have share: "\<not> closed (ctxs h ctx) \<Longrightarrow>
      closed_inv (upd_ctx h ctx (\<lambda>c. c\<lparr>referenceCount := referenceCount c + 1\<rparr>))" for ctx
    using inv by (intro closed_inv_open_update) simp_all
  have "h' = h
      \<or> h' = upd_ctx (snd (NewMemoryContext h cfg now)) (nextCtx h)
                (\<lambda>c. c\<lparr>active := True, referenceCount := 1\<rparr>)
      \<or> (\<exists>ctx. \<not> closed (ctxs h ctx)
            \<and> h' = upd_ctx h ctx (\<lambda>c. c\<lparr>referenceCount := referenceCount c + 1\<rparr>))"
  proof (cases "ctxType = []")
    case True
    with run show ?thesis by (simp add: GetOrCreateContext_def)
  next
    case ne: False
    show ?thesis
    proof (cases "cache_lookup cm ctxType")
      case None
      with ne run show ?thesis
        by (cases "ctxCache cm")
           (simp_all add: GetOrCreateContext_def NewMemoryContext_def Let_def)
    next
      case (Some ctx)
      show ?thesis
      proof (cases "closed (ctxs h ctx)")
        case True
        with ne Some run show ?thesis by (simp add: GetOrCreateContext_def)
      next
        case False
        with ne Some run show ?thesis
          by (cases "config cm") (auto simp: GetOrCreateContext_def split: if_splits)
      qed
    qed
  qed
  then show ?thesis using inv new share by auto
qed

lemma closed_inv_ReturnContext:
  assumes inv: "closed_inv h"
  shows "closed_inv (snd (ReturnContext h p))"
proof (cases p)
  case None
  with inv show ?thesis by (simp add: ReturnContext_def)
next
  case (Some ctx)
  show ?thesis
  proof (cases "closed (ctxs h ctx)")
    case True
    with inv Some show ?thesis by (simp add: ReturnContext_def)
  next
    case False
    with inv show ?thesis
      by (simp add: Some ReturnContext_open closed_inv_open_update)
  qed
qed

lemma closed_inv_CreatePool:
  assumes inv: "closed_inv h" and run: "CreatePool h mc objectType newPool = Returns (e, h')"
  shows "closed_inv h'"
  using assms
  by (auto simp: CreatePool_def closed_inv_def upd_ctx_def Let_def
      split: if_splits sum.splits option.splits)

lemma closed_inv_CreateChild:
  assumes inv: "closed_inv h" and run: "CreateChild h mc now = Returns (e, h')"
  shows "closed_inv h'"
proof (cases "closed (ctxs h mc)")
  case True
  with assms show ?thesis by (simp add: CreateChild_def)
next
  case False
  with run show ?thesis by (simp add: CreateChild_open_deadlocks)
qed

lemma closed_inv_RegisterChild_open:
  assumes inv: "closed_inv h" and op: "\<not> closed (ctxs h mc)"
    and run: "RegisterChild held h mc child = Returns h'"
  shows "closed_inv h'"
proof -
  from run have "h' = upd_ctx h mc (\<lambda>c. c\<lparr>children := children c @ [child]\<rparr>)"
    by (simp add: RegisterChild_def split: if_splits)
  with inv op show ?thesis by (simp add: closed_inv_open_update)
qed

lemma closed_inv_Acquire: "closed_inv h \<Longrightarrow> closed_inv (snd (Acquire pool_Get h mm objectType))"
  by (rule closed_inv_same) (simp_all add: Acquire_ctxs)

lemma closed_inv_Release:
  "closed_inv h \<Longrightarrow> closed_inv (snd (Release pool_Put h mm objectType ob))"
  by (rule closed_inv_same) (simp_all add: Release_ctxs)

lemma closed_inv_Close:
  "closed_inv h \<Longrightarrow> Close n held h p = Some (Returns (r, h')) \<Longrightarrow> closed_inv h'"
  by (drule Close_evolves) (rule closed_inv_evolves)

lemma CloseContext_evolves:
  "CloseContext fuel mh cm h k locked = Some (Returns (e, cm', h')) \<Longrightarrow> evolves h h'"
  by (drule CloseContext_effect) (rule conjunct1)

lemma reap_entry_evolves:
  assumes "reap_entry fuel clock (cm, h) e = Some (Returns (cm', h'))"
  shows "evolves h h'"
proof -
  obtain k a where e: "e = (k, a)" by (cases e)
  from assms consider "h' = h"
    | err where "CloseContext fuel True cm h k True = Some (Returns (err, cm', h'))"
    by (auto simp: reap_entry_def e split: if_splits option.splits outcome.splits)
  then show ?thesis
    by cases (simp_all add: evolves_refl CloseContext_evolves)
qed

lemma reap_loop_evolves:
  "reap_loop fuel clock (cm, h) es = Some (Returns (cm', h')) \<Longrightarrow> evolves h h'"
proof (induction es arbitrary: cm h)
  case Nil
  then show ?case by (simp add: evolves_refl)
next
  case (Cons e es)
  from reap_loop_Cons [OF Cons.prems] obtain s1 where
    a: "reap_entry fuel clock (cm, h) e = Some (Returns s1)"
    and b: "reap_loop fuel clock s1 es = Some (Returns (cm', h'))" by blast
  obtain cm1 h1 where s1: "s1 = (cm1, h1)" by (cases s1)
  from a have "evolves h h1" unfolding s1 by (rule reap_entry_evolves)
  moreover from b have "evolves h1 h'" unfolding s1 by (rule Cons.IH)
  ultimately show ?case by (rule evolves_trans)
qed

lemma closed_inv_cleanupIdleContexts:
  "closed_inv h \<Longrightarrow> cleanupIdleContexts fuel clock cm h = Some (Returns (cm', h')) \<Longrightarrow>
     closed_inv h'"
  unfolding cleanupIdleContexts_def
  by (drule reap_loop_evolves) (rule closed_inv_evolves)

lemma close_all_evolves:
  "close_all fuel cm h ks = Some (Returns (e, cm', h')) \<Longrightarrow> evolves h h'"
proof (induction ks arbitrary: cm h)
  case Nil
  then show ?case by (simp add: evolves_refl)
next
  case (Cons k ks)
  from Cons.prems obtain err cm1 h1 where
    a: "CloseContext fuel False cm h k False = Some (Returns (err, cm1, h1))"
    by (auto split: option.splits outcome.splits)
  from a have e1: "evolves h h1" by (rule CloseContext_evolves)
  show ?case
  proof (cases err)
    case None
    with Cons.prems a have "close_all fuel cm1 h1 ks = Some (Returns (e, cm', h'))" by simp
    then have "evolves h1 h'" by (rule Cons.IH)
    with e1 show ?thesis by (rule evolves_trans)
  next
    case (Some x)
    with Cons.prems a have "h' = h1" by simp
    with e1 show ?thesis by simp
  qed
qed

lemma closed_inv_ContextManager_Close:
  assumes inv: "closed_inv h"
    and run: "ContextManager_Close fuel cm h = Some (Returns (e, cm', h'))"
  shows "closed_inv h'"
proof -
  from run consider "h' = h"
    | cm1 ks e1 cm2 where "close_all fuel cm1 h ks = Some (Returns (e1, cm2, h'))"
    by (auto simp: ContextManager_Close_def
        split: if_splits option.splits outcome.splits)
  then show ?thesis
  proof cases
    case 1
    with inv show ?thesis by simp
  next
    case 2
    then have "evolves h h'" by (rule close_all_evolves)
    with inv show ?thesis by (rule closed_inv_evolves)
  qed
qed

lemma int32_count_wraps:
  "sint (referenceCount
     (ctxs (upd_ctx (one_ctx (ctx0\<lparr>referenceCount := 2147483647\<rparr>)) 0
              (\<lambda>c. c\<lparr>referenceCount := referenceCount c + 1\<rparr>)) 0)) = - 2147483648"
  by (simp add: upd_ctx_def one_ctx_def)

section \<open>Closing below open contexts\<close>














section \<open>Stores that keep the invariant, contexts that are nobody's child\<close>

text \<open>
  In a store where closed contexts have released their pools and children, a
  \<^verbatim>\<open>Close\<close> that returns no error leaves every context below the receiver closed and
  cleared, and every pool of such a context closed.
\<close>

lemma Close_closes_subtree:
  assumes inv: "closed_inv h"
    and run: "Close n [] h (Some a) = Some (Returns (None, h'))"
    and b: "b \<in> desc h a"
  shows "closed (ctxs h' b) \<and> pools_list (ctxs h' b) = [] \<and> children (ctxs h' b) = []
         \<and> \<not> active (ctxs h' b) \<and> referenceCount (ctxs h' b) = 0
         \<and> (\<forall>e \<in> set (pools_list (ctxs h b)). pool_closed (pls h' (snd e)))
         \<and> (\<not> closed (ctxs h a) \<longrightarrow> ctxs h' a = cleared (ctxs h a))"
proof -
  from Close_ok [OF run] have ok: "close_ok [] h h'" and ca: "closed (ctxs h' a)" by auto
  from ok have ev: "evolves h h'" and cd: "closed_down h h'" by (simp_all add: close_ok_def)
  from inv ev have inv': "closed_inv h'" by (rule closed_inv_evolves)
  from b have cb: "closed (ctxs h' b)"
  proof (induction rule: desc.induct)
    case desc_self
    show ?case by (rule ca)
  next
    case (desc_child b c)
    show ?case
    proof (cases "closed (ctxs h b)")
      case True
      with inv have "children (ctxs h b) = []" by (simp add: closed_inv_def)
      with desc_child.hyps show ?thesis by simp
    next
      case False
      with desc_child cd show ?thesis unfolding closed_down_def by blast
    qed
  qed
  have pl: "\<forall>e \<in> set (pools_list (ctxs h b)). pool_closed (pls h' (snd e))"
  proof (cases "closed (ctxs h b)")
    case True
    with inv show ?thesis by (simp add: closed_inv_def)
  next
    case False
    with cb cd show ?thesis unfolding closed_down_def by blast
  qed
  from ev have "ctxs h' a = ctxs h a \<or> ctxs h' a = cleared (ctxs h a)"
    by (auto simp: evolves_def)
  with ca have root: "\<not> closed (ctxs h a) \<longrightarrow> ctxs h' a = cleared (ctxs h a)"
    by auto
  from cb inv' pl root show ?thesis by (simp add: closed_inv_def)
qed

lemma Close_closes_subtree_witness:
  "(case Close 3 [] tree3 (Some 0) of
      Some (Returns (None, h')) \<Rightarrow>
        closed (ctxs h' 0) \<and> closed (ctxs h' 1) \<and> closed (ctxs h' 2)
        \<and> children (ctxs h' 0) = [] \<and> pools_list (ctxs h' 1) = []
        \<and> pool_closed (pls h' 0) \<and> pool_closed (pls h' 1) \<and> pool_closed (pls h' 2)
    | _ \<Rightarrow> False)"
proof -
  from tree3_Close obtain h' where run: "Close 3 [] tree3 (Some 0) = Some (Returns (None, h'))" ..
  note th = Close_closes_subtree [OF tree3_inv run]
  have "closed (ctxs h' 0) \<and> closed (ctxs h' 1) \<and> closed (ctxs h' 2)
        \<and> children (ctxs h' 0) = [] \<and> pools_list (ctxs h' 1) = []
        \<and> pool_closed (pls h' 0) \<and> pool_closed (pls h' 1) \<and> pool_closed (pls h' 2)"
    using th [OF desc_self] th [OF tree3_desc(1)] th [OF tree3_desc(2)]
    by (simp add: tree3_def node_def pools_list_def)
  then show ?thesis by (simp add: run)
qed

text \<open>
  One scan of \<^verbatim>\<open>cleanupIdleContexts\<close> over a registry with distinct keys, and a
  context that is registered under the key \<open>k\<close> only and is child of no context: the
  scan removes or changes it only if it was inactive, idle for longer than
  \<open>MaxIdleTime\<close> and without positive reference count.
\<close>

lemma reaper_only_idle_unreferenced:
  assumes run: "cleanupIdleContexts fuel clock cm h = Some (Returns (cm', h'))"
    and cfg: "config cm = Some c"
    and keys: "distinct (map fst (cache_list cm))"
    and reg: "cache_lookup cm k = Some a"
    and only: "\<forall>k'. cache_lookup cm k' = Some a \<longrightarrow> k' = k"
    and top: "\<forall>b. Some a \<notin> set (children (ctxs h b))"
  shows "(cache_lookup cm' k = None \<or> ctxs h' a \<noteq> ctxs h a \<longrightarrow>
            \<not> active (ctxs h a) \<and> clock k - lastUsed (ctxs h a) > MaxIdleTime c
            \<and> \<not> 0 < sint (referenceCount (ctxs h a)))
       \<and> (0 < sint (referenceCount (ctxs h a)) \<longrightarrow>
            cache_lookup cm' k = Some a \<and> ctxs h' a = ctxs h a)"
proof -
  from run have loop: "reap_loop fuel clock (cm, h) (cache_list cm) = Some (Returns (cm', h'))"
    by (simp add: cleanupIdleContexts_def)
  have r: "\<forall>e. e \<in> set (cache_list cm) \<longrightarrow> cache_lookup cm (fst e) = Some (snd e)"
  proof (intro allI impI)
    fix e assume "e \<in> set (cache_list cm)"
    then have "(fst e, snd e) \<in> set (cache_list cm)" by simp
    with keys show "cache_lookup cm (fst e) = Some (snd e)"
      unfolding cache_lookup_def by (rule map_of_is_SomeI)
  qed
  have k: "\<not> reapable c (clock k) (ctxs h a) \<Longrightarrow>
             cache_lookup cm' k = Some a \<and> ctxs h' a = ctxs h a"
    by (rule reap_loop_keeps [OF loop keys r cfg reg only top])
  show ?thesis
  proof (cases "reapable c (clock k) (ctxs h a)")
    case True
    then have "\<not> active (ctxs h a) \<and> clock k - lastUsed (ctxs h a) > MaxIdleTime c
            \<and> \<not> 0 < sint (referenceCount (ctxs h a))"
      by (simp add: reapable_def)
    then show ?thesis by blast
  next
    case False
    from k [OF False] have "cache_lookup cm' k = Some a" "ctxs h' a = ctxs h a" by simp_all
    then show ?thesis by simp
  qed
qed

lemma reaper_only_idle_unreferenced_witness:
  "(case cleanupIdleContexts 1 (\<lambda>k. 1000000000000) reg2 two_ctx of
      Some (Returns (cm', h')) \<Rightarrow>
        cache_lookup cm' ''b'' = Some 1 \<and> ctxs h' 1 = ctxs two_ctx 1
        \<and> cache_lookup cm' ''a'' = None \<and> closed (ctxs h' 0)
    | _ \<Rightarrow> False)"
proof -
  obtain cm' h' where
    run: "cleanupIdleContexts 1 (\<lambda>k. 1000000000000) reg2 two_ctx = Some (Returns (cm', h'))"
    and a: "cache_lookup cm' ''a'' = None \<and> closed (ctxs h' 0)"
    by (simp add: cleanupIdleContexts_def reap_entry_def CloseContext_def reg2_def two_ctx_def
        NewContextManager_def newDefaultConfig_def cache_list_def cache_lookup_def heap0_def
        ctx0_def pools_list_def upd_ctx_def cleared_def)
  have cfg: "config reg2 = Some newDefaultConfig"
    by (simp add: reg2_def NewContextManager_def)
  have keys: "distinct (map fst (cache_list reg2))"
    by (simp add: reg2_def cache_list_def)
  have reg: "cache_lookup reg2 ''b'' = Some 1"
    by (simp add: reg2_def cache_lookup_def cache_list_def)
  have only: "\<forall>k'. cache_lookup reg2 k' = Some 1 \<longrightarrow> k' = ''b''"
    by (simp add: reg2_def cache_lookup_def cache_list_def)
  have top: "\<forall>b. Some 1 \<notin> set (children (ctxs two_ctx b))"
    by (simp add: two_ctx_def heap0_def ctx0_def)
  have pos: "0 < sint (referenceCount (ctxs two_ctx 1))"
    by (simp add: two_ctx_def ctx0_def)
  from reaper_only_idle_unreferenced [OF run cfg keys reg only top] pos
  have "cache_lookup cm' ''b'' = Some 1 \<and> ctxs h' 1 = ctxs two_ctx 1" by blast
  with a show ?thesis unfolding run by simp
qed

text \<open>
  Where \<open>lastUsed\<close> is written: only when \<^verbatim>\<open>GetOrCreateContext\<close> creates a context.
\<close>

lemma lastUsed_only_set_at_creation:
  "(GetOrCreateContext cm h ctxType cfg now = Returns ((p, True, err), cm', h') \<longrightarrow>
      (\<forall>a. lastUsed (ctxs h' a) = lastUsed (ctxs h a)))
   \<and> (GetOrCreateContext cm h ctxType cfg now = Returns ((Some ctx, False, None), cm', h') \<longrightarrow>
      lastUsed (ctxs h' ctx) = now \<and> createdAt (ctxs h' ctx) = now
      \<and> (\<forall>a. a \<noteq> ctx \<longrightarrow> ctxs h' a = ctxs h a))
   \<and> (\<forall>a. lastUsed (ctxs (snd (ReturnContext h q)) a) = lastUsed (ctxs h a))
   \<and> ctxs (snd (Acquire pool_Get h mm objectType)) = ctxs h
   \<and> ctxs (snd (Release pool_Put h mm objectType ob)) = ctxs h"
proof (intro conjI impI allI)
  fix a
  assume "GetOrCreateContext cm h ctxType cfg now = Returns ((p, True, err), cm', h')"
  then show "lastUsed (ctxs h' a) = lastUsed (ctxs h a)" by (rule share_lastUsed)
next
  assume c: "GetOrCreateContext cm h ctxType cfg now = Returns ((Some ctx, False, None), cm', h')"
  from create_lastUsed [OF c] show "lastUsed (ctxs h' ctx) = now" by simp
  from create_lastUsed [OF c] show "createdAt (ctxs h' ctx) = now" by simp
  fix a assume "a \<noteq> ctx"
  with create_lastUsed [OF c] show "ctxs h' a = ctxs h a" by simp
next
  fix a show "lastUsed (ctxs (snd (ReturnContext h q)) a) = lastUsed (ctxs h a)"
    by (rule ReturnContext_lastUsed)
next
  show "ctxs (snd (Acquire pool_Get h mm objectType)) = ctxs h" by (rule Acquire_ctxs)
next
  show "ctxs (snd (Release pool_Put h mm objectType ob)) = ctxs h" by (rule Release_ctxs)
qed

lemma lastUsed_only_set_at_creation_witness:
  "(case GetOrCreateContext reg1 (one_ctx ctx0) ''a'' cfg0 7 of
      Returns ((p, existing, err), cm1, h1) \<Rightarrow>
        existing \<and> lastUsed (ctxs h1 0) = lastUsed (ctxs (one_ctx ctx0) 0)
    | _ \<Rightarrow> False)
   \<and> (case GetOrCreateContext (NewContextManager None) heap0 ''a'' cfg0 5 of
        Returns ((p, existing, err), cm1, h1) \<Rightarrow>
          \<not> existing \<and> lastUsed (ctxs h1 0) = 5
      | _ \<Rightarrow> False)"
proof -
  obtain p err cm1 h1 where
    a: "GetOrCreateContext reg1 (one_ctx ctx0) ''a'' cfg0 7 = Returns ((p, True, err), cm1, h1)"
    by (simp add: eval_defs reg1_def one_ctx_def)
  obtain cm2 h2 where
    b: "GetOrCreateContext (NewContextManager None) heap0 ''a'' cfg0 5
          = Returns ((Some 0, False, None), cm2, h2)"
    by (simp add: eval_defs)
  from a lastUsed_only_set_at_creation [where cm = reg1 and h = "one_ctx ctx0"
      and ctxType = "''a''" and cfg = cfg0 and now = 7 and p = p and err = err and cm' = cm1
      and h' = h1]
  have 1: "lastUsed (ctxs h1 0) = lastUsed (ctxs (one_ctx ctx0) 0)" by blast
  from b lastUsed_only_set_at_creation [where cm = "NewContextManager None" and h = heap0
      and ctxType = "''a''" and cfg = cfg0 and now = 5 and ctx = 0 and cm' = cm2 and h' = h2]
  have 2: "lastUsed (ctxs h2 0) = 5" by blast
  from 1 2 show ?thesis by (simp add: a b)
qed

section \<open>The claims\<close>

text \<open>
  C1: a context that is created, returned (count 0, inactive) and then shared again has
  reference count 1 but stays inactive, because the sharing branch of
  \<^verbatim>\<open>GetOrCreateContext\<close> increments the count without touching \<open>active\<close>; so
  \<open>referenceCount > 0\<close> does not imply \<open>active\<close>, and \<^verbatim>\<open>ValidateContext\<close> rejects a
  context that is in use.
\<close>

theorem share_after_return_stays_inactive:
  "(case GetOrCreateContext (NewContextManager None) heap0 ''a'' cfg0 0 of
      Returns ((p1, existing1, err1), cm1, h1) \<Rightarrow>
        (case ReturnContext h1 p1 of
           (err2, h2) \<Rightarrow>
             (case GetOrCreateContext cm1 h2 ''a'' cfg0 7 of
                Returns ((p3, existing3, err3), cm3, h3) \<Rightarrow>
                  p1 = Some 0 \<and> err1 = None \<and> err2 = None
                  \<and> p3 = Some 0 \<and> existing3 \<and> err3 = None
                  \<and> cache_lookup cm3 ''a'' = Some 0
                  \<and> sint (referenceCount (ctxs h3 0)) = 1
                  \<and> \<not> active (ctxs h3 0)
                  \<and> \<not> ValidateContext h3 (Some 0)
              | _ \<Rightarrow> False))
    | _ \<Rightarrow> False)"
  by (simp add: eval_defs ValidateContext_def)

text \<open>
  C2: a context with a positive reference count can be closed and removed from the
  registry by the cleanup routine. Two contexts are created under \<open>''a''\<close> and
  \<open>''b''\<close>, the second is registered as a child of the first, and the first is returned.
  One scan then closes \<open>''a''\<close>, whose \<^verbatim>\<open>Close\<close> closes the child without looking at its
  reference count and sets that count to 0; the scan goes on to the entry of \<open>''b''\<close>,
  finds it inactive and removes it, although its holder never returned it.
\<close>

theorem reaper_removes_referenced_child:
  "(case GetOrCreateContext (NewContextManager None) heap0 ''a'' cfg0 0 of
      Returns ((pa, existing1, err1), cm1, h1) \<Rightarrow>
        (case GetOrCreateContext cm1 h1 ''b'' cfg0 0 of
           Returns ((pb, existing2, err2), cm2, h2) \<Rightarrow>
             (case RegisterChild [] h2 0 pb of
                Returns h3 \<Rightarrow>
                  (case ReturnContext h3 pa of
                     (err4, h4) \<Rightarrow>
                       (case cleanupIdleContexts 2 (\<lambda>k. 300000000001) cm2 h4 of
                          Some (Returns (cm5, h5)) \<Rightarrow>
                            pa = Some 0 \<and> pb = Some 1 \<and> err1 = None \<and> err2 = None
                            \<and> err4 = None
                            \<and> cache_lookup cm2 ''b'' = Some 1
                            \<and> sint (referenceCount (ctxs h4 1)) = 1
                            \<and> active (ctxs h4 1) \<and> \<not> closed (ctxs h4 1)
                            \<and> cache_lookup cm5 ''b'' = None
                            \<and> closed (ctxs h5 1)
                            \<and> referenceCount (ctxs h5 1) = 0
                        | _ \<Rightarrow> False))
              | _ \<Rightarrow> False)
         | _ \<Rightarrow> False)
    | _ \<Rightarrow> False)"
  by (simp add: eval_defs RegisterChild_def cleanupIdleContexts_def reap_entry_def
      CloseContext_def numeral_2_eq_2 pools_list_def cleared_def)

text \<open>
  C3: \<^verbatim>\<open>GetOrCreateContext\<close> on a manager that has not been shut down. The empty type
  fails with \<open>ErrInvalidContextType\<close>. With no entry for the type a context is allocated
  at the next address of the store, which the allocator then passes; it has reference
  count 1, is active and open, has no children and an empty pool map, and carries the
  creation time; it is registered under the type and returned with
  \<open>wasExisting = False\<close>, while every other context, every pool and every other entry
  stay as they were. The context is fresh: where the registry and the child lists
  refer to allocated addresses only, no other key and no child list refers to it, and
  this remains so. A closed entry gives \<open>ErrContextClosed\<close>; a positive
  \<open>MaxReferences\<close> that the count has reached gives \<open>ErrMaxReferencesReached\<close>; otherwise
  the count is incremented and the entry returned with \<open>wasExisting = True\<close>.
\<close>

theorem GetOrCreateContext_spec:
  assumes live: "ctxCache cm = Some m" "config cm = Some c"
  shows "(ctxType = [] \<longrightarrow>
            GetOrCreateContext cm h ctxType cfg now
              = Returns ((None, False, Some ErrInvalidContextType), cm, h))
       \<and> (ctxType \<noteq> [] \<and> cache_lookup cm ctxType = None \<longrightarrow>
            (\<exists>cm1 h1. GetOrCreateContext cm h ctxType cfg now
                         = Returns ((Some (nextCtx h), False, None), cm1, h1)
               \<and> ctxCache cm1 = Some (AList.update ctxType (nextCtx h) m)
               \<and> cache_lookup cm1 ctxType = Some (nextCtx h)
               \<and> (\<forall>k. k \<noteq> ctxType \<longrightarrow> cache_lookup cm1 k = cache_lookup cm k)
               \<and> config cm1 = config cm \<and> stopChan cm1 = stopChan cm
               \<and> cm_closed cm1 = cm_closed cm
               \<and> referenceCount (ctxs h1 (nextCtx h)) = 1
               \<and> active (ctxs h1 (nextCtx h))
               \<and> \<not> closed (ctxs h1 (nextCtx h))
               \<and> ctxs h1 (nextCtx h)
                   = \<lparr>active = True, closed = False, referenceCount = 1,
                      contextType = ContextType cfg, parent = Parent cfg, children = [],
                      pools = Some [], createdAt = now, lastUsed = now\<rparr>
               \<and> (\<forall>a. a \<noteq> nextCtx h \<longrightarrow> ctxs h1 a = ctxs h a)
               \<and> pls h1 = pls h \<and> nextPool h1 = nextPool h
               \<and> nextCtx h1 = Suc (nextCtx h)
               \<and> ((\<forall>k a. cache_lookup cm k = Some a \<longrightarrow> a < nextCtx h) \<longrightarrow>
                    (\<forall>k. k \<noteq> ctxType \<longrightarrow> cache_lookup cm1 k \<noteq> Some (nextCtx h))
                    \<and> (\<forall>k a. cache_lookup cm1 k = Some a \<longrightarrow> a < nextCtx h1))
               \<and> (children_below (nextCtx h) h \<longrightarrow>
                    (\<forall>b. Some (nextCtx h) \<notin> set (children (ctxs h1 b)))
                    \<and> children_below (nextCtx h1) h1)))
       \<and> (ctxType \<noteq> [] \<and> cache_lookup cm ctxType = Some ctx \<and> closed (ctxs h ctx) \<longrightarrow>
            GetOrCreateContext cm h ctxType cfg now
              = Returns ((None, False, Some ErrContextClosed), cm, h))
       \<and> (ctxType \<noteq> [] \<and> cache_lookup cm ctxType = Some ctx \<and> \<not> closed (ctxs h ctx)
            \<and> 0 < sint (MaxReferences c)
            \<and> sint (MaxReferences c) \<le> sint (referenceCount (ctxs h ctx)) \<longrightarrow>
            GetOrCreateContext cm h ctxType cfg now
              = Returns ((None, False, Some ErrMaxReferencesReached), cm, h))
       \<and> (ctxType \<noteq> [] \<and> cache_lookup cm ctxType = Some ctx \<and> \<not> closed (ctxs h ctx)
            \<and> \<not> (0 < sint (MaxReferences c)
                  \<and> sint (MaxReferences c) \<le> sint (referenceCount (ctxs h ctx))) \<longrightarrow>
            GetOrCreateContext cm h ctxType cfg now
              = Returns ((Some ctx, True, None), cm,
                   upd_ctx h ctx (\<lambda>x. x\<lparr>referenceCount := referenceCount x + 1\<rparr>)))"
proof (intro conjI impI)
  assume "ctxType = []"
  then show "GetOrCreateContext cm h ctxType cfg now
              = Returns ((None, False, Some ErrInvalidContextType), cm, h)"
    by (simp add: GetOrCreateContext_def)
next
  assume a: "ctxType \<noteq> [] \<and> cache_lookup cm ctxType = None"
  let ?a = "nextCtx h"
  let ?cm = "cm\<lparr>ctxCache := Some (AList.update ctxType ?a m)\<rparr>"
  let ?new = "\<lparr>active = True, closed = False, referenceCount = 1,
                contextType = ContextType cfg, parent = Parent cfg, children = [],
                pools = Some [], createdAt = now, lastUsed = now\<rparr>"
  let ?h = "h\<lparr>ctxs := (ctxs h)(?a := ?new), nextCtx := Suc ?a\<rparr>"
  have g: "GetOrCreateContext cm h ctxType cfg now = Returns ((Some ?a, False, None), ?cm, ?h)"
    using a live by (simp add: GetOrCreateContext_def NewMemoryContext_def upd_ctx_def Let_def)
  have lk: "cache_lookup ?cm k = (if k = ctxType then Some ?a else cache_lookup cm k)" for k
    using live by (simp add: cache_lookup_update)
  have reg: "(\<forall>k a. cache_lookup cm k = Some a \<longrightarrow> a < nextCtx h) \<longrightarrow>
                    (\<forall>k. k \<noteq> ctxType \<longrightarrow> cache_lookup ?cm k \<noteq> Some (nextCtx h))
                    \<and> (\<forall>k a. cache_lookup ?cm k = Some a \<longrightarrow> a < nextCtx ?h)"
  proof (intro impI conjI allI)
    fix k assume w: "\<forall>k a. cache_lookup cm k = Some a \<longrightarrow> a < nextCtx h" and "k \<noteq> ctxType"
    then show "cache_lookup ?cm k \<noteq> Some (nextCtx h)" by (auto simp: lk)
  next
    fix k x assume w: "\<forall>k a. cache_lookup cm k = Some a \<longrightarrow> a < nextCtx h"
      and "cache_lookup ?cm k = Some x"
    then have "x = ?a \<or> cache_lookup cm k = Some x" by (auto simp: lk split: if_splits)
    with w have "x \<le> ?a" by (auto simp: less_imp_le)
    then show "x < nextCtx ?h" by simp
  qed
  have ch: "children_below (nextCtx h) h \<longrightarrow>
                    (\<forall>b. Some (nextCtx h) \<notin> set (children (ctxs ?h b)))
                    \<and> children_below (nextCtx ?h) ?h"
  proof (intro impI conjI allI)
    fix b assume w: "children_below (nextCtx h) h"
    show "Some (nextCtx h) \<notin> set (children (ctxs ?h b))"
    proof
      assume m: "Some (nextCtx h) \<in> set (children (ctxs ?h b))"
      then have "b \<noteq> ?a" by auto
      with m have "Some (nextCtx h) \<in> set (children (ctxs h b))" by simp
      with w show False by (auto simp: children_below_def)
    qed
  next
    assume w: "children_below (nextCtx h) h"
    show "children_below (nextCtx ?h) ?h"
      unfolding children_below_def
    proof (intro allI impI)
      fix b x assume m: "Some x \<in> set (children (ctxs ?h b))"
      then have "b \<noteq> ?a" by auto
      with m have "Some x \<in> set (children (ctxs h b))" by simp
      with w have "x < ?a" by (auto simp: children_below_def)
      then show "x < nextCtx ?h" by simp
    qed
  qed
  show "\<exists>cm1 h1. GetOrCreateContext cm h ctxType cfg now
                         = Returns ((Some (nextCtx h), False, None), cm1, h1)
               \<and> ctxCache cm1 = Some (AList.update ctxType (nextCtx h) m)
               \<and> cache_lookup cm1 ctxType = Some (nextCtx h)
               \<and> (\<forall>k. k \<noteq> ctxType \<longrightarrow> cache_lookup cm1 k = cache_lookup cm k)
               \<and> config cm1 = config cm \<and> stopChan cm1 = stopChan cm
               \<and> cm_closed cm1 = cm_closed cm
               \<and> referenceCount (ctxs h1 (nextCtx h)) = 1
               \<and> active (ctxs h1 (nextCtx h))
               \<and> \<not> closed (ctxs h1 (nextCtx h))
               \<and> ctxs h1 (nextCtx h)
                   = \<lparr>active = True, closed = False, referenceCount = 1,
                      contextType = ContextType cfg, parent = Parent cfg, children = [],
                      pools = Some [], createdAt = now, lastUsed = now\<rparr>
               \<and> (\<forall>a. a \<noteq> nextCtx h \<longrightarrow> ctxs h1 a = ctxs h a)
               \<and> pls h1 = pls h \<and> nextPool h1 = nextPool h
               \<and> nextCtx h1 = Suc (nextCtx h)
               \<and> ((\<forall>k a. cache_lookup cm k = Some a \<longrightarrow> a < nextCtx h) \<longrightarrow>
                    (\<forall>k. k \<noteq> ctxType \<longrightarrow> cache_lookup cm1 k \<noteq> Some (nextCtx h))
                    \<and> (\<forall>k a. cache_lookup cm1 k = Some a \<longrightarrow> a < nextCtx h1))
               \<and> (children_below (nextCtx h) h \<longrightarrow>
                    (\<forall>b. Some (nextCtx h) \<notin> set (children (ctxs h1 b)))
                    \<and> children_below (nextCtx h1) h1)"
    apply (rule exI [of _ ?cm])
    apply (rule exI [of _ ?h])
    apply (intro conjI)
                    apply (rule g)
                   apply simp
                  apply (simp add: lk)
                 apply (simp add: lk)
                apply simp
               apply simp
              apply simp
             apply simp
            apply simp
           apply simp
          apply simp
         apply simp
        apply simp
       apply simp
      apply simp
     apply (rule reg)
    apply (rule ch)
    done
next
  assume "ctxType \<noteq> [] \<and> cache_lookup cm ctxType = Some ctx \<and> closed (ctxs h ctx)"
  then show "GetOrCreateContext cm h ctxType cfg now
              = Returns ((None, False, Some ErrContextClosed), cm, h)"
    by (simp add: GetOrCreateContext_def)
next
  assume "ctxType \<noteq> [] \<and> cache_lookup cm ctxType = Some ctx \<and> \<not> closed (ctxs h ctx)
            \<and> 0 < sint (MaxReferences c)
            \<and> sint (MaxReferences c) \<le> sint (referenceCount (ctxs h ctx))"
  then show "GetOrCreateContext cm h ctxType cfg now
              = Returns ((None, False, Some ErrMaxReferencesReached), cm, h)"
    using live by (simp add: GetOrCreateContext_def)
next
  assume "ctxType \<noteq> [] \<and> cache_lookup cm ctxType = Some ctx \<and> \<not> closed (ctxs h ctx)
            \<and> \<not> (0 < sint (MaxReferences c)
                  \<and> sint (MaxReferences c) \<le> sint (referenceCount (ctxs h ctx)))"
  then show "GetOrCreateContext cm h ctxType cfg now
              = Returns ((Some ctx, True, None), cm,
                   upd_ctx h ctx (\<lambda>x. x\<lparr>referenceCount := referenceCount x + 1\<rparr>))"
    using live by (auto simp: GetOrCreateContext_def)
qed

theorem GetOrCreateContext_spec_witness:
  "GetOrCreateContext (NewContextManager None) heap0 [] cfg0 5
     = Returns ((None, False, Some ErrInvalidContextType), NewContextManager None, heap0)
   \<and> (\<exists>cm1 h1 cm2 h2.
          GetOrCreateContext (NewContextManager None) heap0 ''a'' cfg0 5
            = Returns ((Some 0, False, None), cm1, h1)
        \<and> GetOrCreateContext cm1 h1 ''b'' cfg0 6 = Returns ((Some 1, False, None), cm2, h2)
        \<and> cache_lookup cm2 ''a'' = Some 0 \<and> cache_lookup cm2 ''b'' = Some 1
        \<and> referenceCount (ctxs h2 0) = 1 \<and> active (ctxs h2 0) \<and> lastUsed (ctxs h2 0) = 5
        \<and> referenceCount (ctxs h2 1) = 1 \<and> active (ctxs h2 1) \<and> lastUsed (ctxs h2 1) = 6
        \<and> nextCtx h2 = 2)
   \<and> GetOrCreateContext reg1 (one_ctx (cleared ctx0)) ''a'' cfg0 5
       = Returns ((None, False, Some ErrContextClosed), reg1, one_ctx (cleared ctx0))
   \<and> GetOrCreateContext reg1 (one_ctx (ctx0\<lparr>referenceCount := 10\<rparr>)) ''a'' cfg0 5
       = Returns ((None, False, Some ErrMaxReferencesReached), reg1,
                  one_ctx (ctx0\<lparr>referenceCount := 10\<rparr>))
   \<and> GetOrCreateContext reg1 (one_ctx (ctx0\<lparr>referenceCount := 9\<rparr>)) ''a'' cfg0 5
       = Returns ((Some 0, True, None), reg1,
                  upd_ctx (one_ctx (ctx0\<lparr>referenceCount := 9\<rparr>)) 0
                    (\<lambda>x. x\<lparr>referenceCount := referenceCount x + 1\<rparr>))"
proof -
  have l0: "ctxCache (NewContextManager None) = Some []"
    "config (NewContextManager None) = Some newDefaultConfig"
    by (simp_all add: NewContextManager_def)
  have l1: "ctxCache reg1 = Some [(''a'', 0)]" "config reg1 = Some newDefaultConfig"
    by (simp_all add: reg1_def NewContextManager_def)
  have m: "sint (MaxReferences newDefaultConfig) = 10" by (simp add: newDefaultConfig_def)
  have k1: "cache_lookup reg1 ''a'' = Some 0"
    by (simp add: cache_lookup_def cache_list_def l1)
  have 1: "GetOrCreateContext (NewContextManager None) heap0 [] cfg0 5
     = Returns ((None, False, Some ErrInvalidContextType), NewContextManager None, heap0)"
    by (rule mp [OF GetOrCreateContext_spec [OF l0, where ctxType = "[]" and h = heap0
          and cfg = cfg0 and now = 5, THEN conjunct1] refl])
  have pa: "''a'' \<noteq> [] \<and> cache_lookup (NewContextManager None) ''a'' = None"
    by (simp add: cache_lookup_def cache_list_def l0)
  have n0: "nextCtx heap0 = 0" by (simp add: heap0_def)
  from mp [OF GetOrCreateContext_spec [OF l0, where ctxType = "''a''" and h = heap0
          and cfg = cfg0 and now = 5, THEN conjunct2, THEN conjunct1] pa]
  obtain cm1 h1 where
    ga: "GetOrCreateContext (NewContextManager None) heap0 ''a'' cfg0 5
           = Returns ((Some (nextCtx heap0), False, None), cm1, h1)"
    and ca: "ctxCache cm1 = Some (AList.update ''a'' (nextCtx heap0) [])"
    and la: "cache_lookup cm1 ''a'' = Some (nextCtx heap0)"
    and oa: "\<forall>k. k \<noteq> ''a'' \<longrightarrow> cache_lookup cm1 k = cache_lookup (NewContextManager None) k"
    and fa: "config cm1 = config (NewContextManager None)"
    and ra: "ctxs h1 (nextCtx heap0)
               = \<lparr>active = True, closed = False, referenceCount = 1,
                  contextType = ContextType cfg0, parent = Parent cfg0, children = [],
                  pools = Some [], createdAt = 5, lastUsed = 5\<rparr>"
    and na: "nextCtx h1 = Suc (nextCtx heap0)"
    by (elim exE conjE)
  from fa l0 have f1: "config cm1 = Some newDefaultConfig" by simp
  from oa have "cache_lookup cm1 ''b'' = cache_lookup (NewContextManager None) ''b''" by simp
  then have pb: "''b'' \<noteq> [] \<and> cache_lookup cm1 ''b'' = None"
    by (simp add: cache_lookup_def cache_list_def l0)
  from mp [OF GetOrCreateContext_spec [OF ca f1, where ctxType = "''b''" and h = h1
          and cfg = cfg0 and now = 6, THEN conjunct2, THEN conjunct1] pb]
  obtain cm2 h2 where
    gb: "GetOrCreateContext cm1 h1 ''b'' cfg0 6 = Returns ((Some (nextCtx h1), False, None), cm2, h2)"
    and lb: "cache_lookup cm2 ''b'' = Some (nextCtx h1)"
    and ob: "\<forall>k. k \<noteq> ''b'' \<longrightarrow> cache_lookup cm2 k = cache_lookup cm1 k"
    and rb: "ctxs h2 (nextCtx h1)
               = \<lparr>active = True, closed = False, referenceCount = 1,
                  contextType = ContextType cfg0, parent = Parent cfg0, children = [],
                  pools = Some [], createdAt = 6, lastUsed = 6\<rparr>"
    and sb: "\<forall>a. a \<noteq> nextCtx h1 \<longrightarrow> ctxs h2 a = ctxs h1 a"
    and nb: "nextCtx h2 = Suc (nextCtx h1)"
    by (elim exE conjE)
  from na n0 have n1: "nextCtx h1 = 1" by simp
  from ob la have la2: "cache_lookup cm2 ''a'' = Some 0" by (simp add: n0)
  from sb n1 have "ctxs h2 0 = ctxs h1 0" by simp
  with ra n0 have c0: "referenceCount (ctxs h2 0) = 1 \<and> active (ctxs h2 0)
      \<and> lastUsed (ctxs h2 0) = 5" by simp
  from rb n1 have c1: "referenceCount (ctxs h2 1) = 1 \<and> active (ctxs h2 1)
      \<and> lastUsed (ctxs h2 1) = 6" by simp
  from nb n1 have n2: "nextCtx h2 = 2" by simp
  from ga gb lb la2 c0 c1 n2 n0 n1 have 2: "\<exists>cm1 h1 cm2 h2.
          GetOrCreateContext (NewContextManager None) heap0 ''a'' cfg0 5
            = Returns ((Some 0, False, None), cm1, h1)
        \<and> GetOrCreateContext cm1 h1 ''b'' cfg0 6 = Returns ((Some 1, False, None), cm2, h2)
        \<and> cache_lookup cm2 ''a'' = Some 0 \<and> cache_lookup cm2 ''b'' = Some 1
        \<and> referenceCount (ctxs h2 0) = 1 \<and> active (ctxs h2 0) \<and> lastUsed (ctxs h2 0) = 5
        \<and> referenceCount (ctxs h2 1) = 1 \<and> active (ctxs h2 1) \<and> lastUsed (ctxs h2 1) = 6
        \<and> nextCtx h2 = 2"
    by (intro exI [of _ cm1] exI [of _ h1] exI [of _ cm2] exI [of _ h2]) simp
  have p3: "''a'' \<noteq> [] \<and> cache_lookup reg1 ''a'' = Some 0
      \<and> closed (ctxs (one_ctx (cleared ctx0)) 0)"
    using k1 by (simp add: one_ctx_def)
  have 3: "GetOrCreateContext reg1 (one_ctx (cleared ctx0)) ''a'' cfg0 5
       = Returns ((None, False, Some ErrContextClosed), reg1, one_ctx (cleared ctx0))"
    by (rule mp [OF GetOrCreateContext_spec [OF l1, where ctxType = "''a''" and ctx = 0
          and h = "one_ctx (cleared ctx0)" and cfg = cfg0 and now = 5,
          THEN conjunct2, THEN conjunct2, THEN conjunct1] p3])
  let ?t = "one_ctx (ctx0\<lparr>referenceCount := 10\<rparr>)"
  have p4: "''a'' \<noteq> [] \<and> cache_lookup reg1 ''a'' = Some 0 \<and> \<not> closed (ctxs ?t 0)
            \<and> 0 < sint (MaxReferences newDefaultConfig)
            \<and> sint (MaxReferences newDefaultConfig) \<le> sint (referenceCount (ctxs ?t 0))"
    using k1 m by (simp add: one_ctx_def ctx0_def)
  have 4: "GetOrCreateContext reg1 ?t ''a'' cfg0 5
       = Returns ((None, False, Some ErrMaxReferencesReached), reg1, ?t)"
    by (rule mp [OF GetOrCreateContext_spec [OF l1, where ctxType = "''a''" and ctx = 0
          and h = ?t and cfg = cfg0 and now = 5,
          THEN conjunct2, THEN conjunct2, THEN conjunct2, THEN conjunct1] p4])
  let ?n = "one_ctx (ctx0\<lparr>referenceCount := 9\<rparr>)"
  have p5: "''a'' \<noteq> [] \<and> cache_lookup reg1 ''a'' = Some 0 \<and> \<not> closed (ctxs ?n 0)
            \<and> \<not> (0 < sint (MaxReferences newDefaultConfig)
                  \<and> sint (MaxReferences newDefaultConfig) \<le> sint (referenceCount (ctxs ?n 0)))"
    using k1 m by (simp add: one_ctx_def ctx0_def)
  have 5: "GetOrCreateContext reg1 ?n ''a'' cfg0 5
       = Returns ((Some 0, True, None), reg1,
                  upd_ctx ?n 0 (\<lambda>x. x\<lparr>referenceCount := referenceCount x + 1\<rparr>))"
    by (rule mp [OF GetOrCreateContext_spec [OF l1, where ctxType = "''a''" and ctx = 0
          and h = ?n and cfg = cfg0 and now = 5,
          THEN conjunct2, THEN conjunct2, THEN conjunct2, THEN conjunct2] p5])
  from 1 2 3 4 5 show ?thesis by (intro conjI)
qed






text \<open>
  C6: a \<^verbatim>\<open>Close\<close> that returns no error can leave a descendant and its pool open. A
  leaf with a pool is registered below a context that has been closed before
  (\<^verbatim>\<open>RegisterChild\<close> does not look at \<open>closed\<close>), and that context below a root. The
  \<^verbatim>\<open>Close\<close> of the root returns at \<^verbatim>\<open>if mc.closed\<close> for the middle context, so the
  leaf and its pool stay open.
\<close>

theorem Close_skips_below_closed_child:
  "(case NewMemoryContext heap0 cfg0 0 of
      (root, h1) \<Rightarrow>
        (case NewMemoryContext h1 cfg0 0 of
           (mid, h2) \<Rightarrow>
             (case NewMemoryContext h2 cfg0 0 of
                (leaf, h3) \<Rightarrow>
                  (case CreatePool h3 leaf ''buf'' (Inr pool0) of
                     Returns (err4, h4) \<Rightarrow>
                       (case Close 4 [] h4 (Some mid) of
                          Some (Returns (err5, h5)) \<Rightarrow>
                            (case RegisterChild [] h5 mid (Some leaf) of
                               Returns h6 \<Rightarrow>
                                 (case RegisterChild [] h6 root (Some mid) of
                                    Returns h7 \<Rightarrow>
                                      (case Close 4 [] h7 (Some root) of
                                         Some (Returns (err8, h8)) \<Rightarrow>
                                           err4 = None \<and> err5 = None \<and> err8 = None
                                           \<and> children (ctxs h7 root) = [Some mid]
                                           \<and> children (ctxs h7 mid) = [Some leaf]
                                           \<and> pools (ctxs h7 leaf) = Some [(''buf'', 0)]
                                           \<and> closed (ctxs h8 root)
                                           \<and> closed (ctxs h8 mid)
                                           \<and> \<not> closed (ctxs h8 leaf)
                                           \<and> pools (ctxs h8 leaf) = Some [(''buf'', 0)]
                                           \<and> \<not> pool_closed (pls h8 0)
                                       | _ \<Rightarrow> False)
                                  | _ \<Rightarrow> False)
                             | _ \<Rightarrow> False)
                        | _ \<Rightarrow> False)
                   | _ \<Rightarrow> False))))"
  by (simp add: eval_defs RegisterChild_def CreatePool_def numeral_Bit0 pools_list_def
      cleared_def)

text \<open>
  C7: after a successful shutdown of the manager a second \<^verbatim>\<open>Close\<close> returns
  \<open>ErrContextManagerClosed\<close>, but \<^verbatim>\<open>GetOrCreateContext\<close> panics (it writes into the
  registry map, which the shutdown set to nil) and \<^verbatim>\<open>CloseContext\<close> reports
  \<open>ErrContextNotFound\<close>.
\<close>

theorem GetOrCreateContext_after_shutdown_panics:
  "(case ContextManager_Close 1 (NewContextManager None) heap0 of
      Some (Returns (err1, cm1, h1)) \<Rightarrow>
        err1 = None \<and> cm_closed cm1
        \<and> GetOrCreateContext cm1 h1 ''a'' cfg0 0 = Panics
        \<and> ContextManager_Close 1 cm1 h1
            = Some (Returns (Some ErrContextManagerClosed, cm1, h1))
        \<and> CloseContext 1 False cm1 h1 ''a'' False
            = Some (Returns (Some ErrContextNotFound, cm1, h1))
    | _ \<Rightarrow> False)"
  by (simp add: eval_defs ContextManager_Close_def StopCleanup_def CloseContext_def)

text \<open>
  C8: \<^verbatim>\<open>Close\<close> on a closed context returns no error and leaves the whole store as it
  is; in particular a second \<^verbatim>\<open>Close\<close> after a successful one changes nothing.
\<close>

theorem Close_idempotent:
  "(closed (ctxs h mc) \<longrightarrow> Close (Suc n) [] h (Some mc) = Some (Returns (None, h)))
   \<and> (Close m [] h (Some mc) = Some (Returns (None, h')) \<longrightarrow>
        Close (Suc n) [] h' (Some mc) = Some (Returns (None, h')))"
  using Close_ok [of m "[]" h "Some mc" None h'] by auto

theorem Close_idempotent_witness:
  "Close (Suc 0) [] (one_ctx (cleared ctx0)) (Some 0)
     = Some (Returns (None, one_ctx (cleared ctx0)))
   \<and> (case Close 3 [] tree3 (Some 0) of
        Some (Returns (None, h')) \<Rightarrow> Close (Suc 0) [] h' (Some 0) = Some (Returns (None, h'))
      | _ \<Rightarrow> False)"
proof -
  have c: "closed (ctxs (one_ctx (cleared ctx0)) 0)" by (simp add: one_ctx_def)
  from tree3_Close obtain h' where run: "Close 3 [] tree3 (Some 0) = Some (Returns (None, h'))" ..
  have 1: "Close (Suc 0) [] (one_ctx (cleared ctx0)) (Some 0)
     = Some (Returns (None, one_ctx (cleared ctx0)))"
    using Close_idempotent [where h = "one_ctx (cleared ctx0)" and mc = 0 and n = 0] c by blast
  have 2: "Close (Suc 0) [] h' (Some 0) = Some (Returns (None, h'))"
    using Close_idempotent [where m = 3 and h = tree3 and mc = 0 and h' = h' and n = 0] run
    by blast
  from 1 2 show ?thesis by (simp add: run)
qed

text \<open>
  C9: \<^verbatim>\<open>RegisterChild\<close> on a closed context appends the child, so the closed context
  has a child again and the invariant of closed contexts is lost; \<^verbatim>\<open>CreateChild\<close> on
  the same context refuses with \<open>ErrContextClosed\<close>, and a later \<^verbatim>\<open>Close\<close> of the
  parent returns at once and leaves the new child open.
\<close>

theorem RegisterChild_on_closed_breaks_invariant:
  "(case NewMemoryContext heap0 cfg0 0 of
      (mc, h1) \<Rightarrow>
        (case Close 1 [] h1 (Some mc) of
           Some (Returns (err2, h2)) \<Rightarrow>
             (case NewMemoryContext h2 cfg0 1 of
                (child, h3) \<Rightarrow>
                  (case RegisterChild [] h3 mc (Some child) of
                     Returns h4 \<Rightarrow>
                       err2 = None \<and> closed (ctxs h3 mc) \<and> children (ctxs h3 mc) = []
                       \<and> CreateChild h3 mc 2 = Returns (Some ErrContextClosed, h3)
                       \<and> closed (ctxs h4 mc)
                       \<and> children (ctxs h4 mc) = [Some child]
                       \<and> \<not> closed (ctxs h4 child)
                       \<and> Close 1 [] h4 (Some mc) = Some (Returns (None, h4))
                   | _ \<Rightarrow> False))
         | _ \<Rightarrow> False))"
  by (simp add: eval_defs RegisterChild_def CreateChild_def cleared_def pools_list_def)

text \<open>
  C10: neither sharing nor returning a context refreshes \<open>lastUsed\<close>. A context is
  created at time 0, shared at 299 s and returned twice; \<open>lastUsed\<close> is still 0, and a
  scan of the reaper just after 300 s (the default \<open>MaxIdleTime\<close>) closes and removes
  the context, which was in use little more than a second before.
\<close>

theorem used_context_reaped_by_age:
  "(case GetOrCreateContext (NewContextManager None) heap0 ''a'' cfg0 0 of
      Returns ((p1, existing1, err1), cm1, h1) \<Rightarrow>
        (case GetOrCreateContext cm1 h1 ''a'' cfg0 299000000000 of
           Returns ((p2, existing2, err2), cm2, h2) \<Rightarrow>
             (case ReturnContext h2 p2 of
                (err3, h3) \<Rightarrow>
                  (case ReturnContext h3 p2 of
                     (err4, h4) \<Rightarrow>
                       (case cleanupIdleContexts 1 (\<lambda>k. 300000000001) cm2 h4 of
                          Some (Returns (cm5, h5)) \<Rightarrow>
                            p2 = Some 0 \<and> existing2 \<and> err2 = None \<and> err3 = None
                            \<and> err4 = None
                            \<and> config cm2 = Some newDefaultConfig
                            \<and> MaxIdleTime newDefaultConfig = 300000000000
                            \<and> lastUsed (ctxs h2 0) = 0
                            \<and> lastUsed (ctxs h3 0) = 0
                            \<and> lastUsed (ctxs h4 0) = 0
                            \<and> cache_lookup cm2 ''a'' = Some 0
                            \<and> cache_lookup cm5 ''a'' = None
                            \<and> closed (ctxs h5 0)
                        | _ \<Rightarrow> False)))
         | _ \<Rightarrow> False)
    | _ \<Rightarrow> False)"
  by (simp add: eval_defs cleanupIdleContexts_def reap_entry_def
      CloseContext_def pools_list_def cleared_def)

end
